theory Spec2Isabelle
  imports Main "HOL-Library.Word"
begin

unbundle bit_operations_syntax

section \<open>JavaScript numbers and 32-bit operators\<close>

text \<open>
  Every number that \<open>lib/js/sha1.js\<close> computes is an integer of magnitude far below
  \<open>2 ^ 53\<close>, where JavaScript's doubles are exact, so a number is modelled as an
  \<open>int\<close>. The bitwise operators first convert their operands to 32 bits (ToInt32,
  ToUint32: reduction modulo \<open>2 ^ 32\<close>), work on the bits, and return the result as a
  signed 32-bit integer; only \<open>>>>\<close> returns an unsigned one. The shift count is taken
  modulo 32. Additions (\<open>+\<close>, \<open>+=\<close>) are plain additions of numbers and do not wrap.
\<close>

type_synonym byte = "8 word"

definition js_and :: "int \<Rightarrow> int \<Rightarrow> int" where
  "js_and x y = sint ((word_of_int x :: 32 word) AND word_of_int y)"

definition js_or :: "int \<Rightarrow> int \<Rightarrow> int" where
  "js_or x y = sint ((word_of_int x :: 32 word) OR word_of_int y)"

definition js_xor :: "int \<Rightarrow> int \<Rightarrow> int" where
  "js_xor x y = sint ((word_of_int x :: 32 word) XOR word_of_int y)"

definition js_not :: "int \<Rightarrow> int" where
  "js_not x = sint (NOT (word_of_int x :: 32 word))"

definition js_shl :: "int \<Rightarrow> nat \<Rightarrow> int" where
  "js_shl x n = sint (push_bit (n mod 32) (word_of_int x :: 32 word))"

definition js_shr :: "int \<Rightarrow> nat \<Rightarrow> int" where
  "js_shr x n = sint (signed_drop_bit (n mod 32) (word_of_int x :: 32 word))"

definition js_ushr :: "int \<Rightarrow> nat \<Rightarrow> int" where
  "js_ushr x n = uint (drop_bit (n mod 32) (word_of_int x :: 32 word))"

section \<open>Buffers\<close>

text \<open>
  A \<open>Buffer\<close> is a list of bytes. Reading an element gives a number in \<open>0..255\<close>;
  reading past the end gives \<open>undefined\<close>, which \<open>& 0xff\<close> and a store into a Buffer
  both turn into 0. A store keeps the low eight bits of the number, and a store past the
  end is ignored (as \<open>list_update\<close> does). \<open>Buffer.allocUnsafe n\<close> returns \<open>n\<close> bytes
  of unspecified content: the model reads them from a parameter \<open>mem\<close>.
\<close>

definition byte_at :: "byte list \<Rightarrow> nat \<Rightarrow> int" where
  "byte_at buf i = (if i < length buf then uint (buf ! i) else 0)"

definition buf_set :: "byte list \<Rightarrow> nat \<Rightarrow> int \<Rightarrow> byte list" where
  "buf_set buf i v = buf[i := word_of_int v]"

definition allocUnsafe :: "(nat \<Rightarrow> byte) \<Rightarrow> nat \<Rightarrow> byte list" where
  "allocUnsafe mem n = map mem [0..<n]"

definition writeU32 :: "byte list \<Rightarrow> int \<Rightarrow> nat \<Rightarrow> byte list" where
  "writeU32 buf val offset =
     (let buf1 = buf_set buf offset (js_ushr val 24);
          buf2 = buf_set buf1 (offset + 1) (js_and (js_shr val 16) 0xff);
          buf3 = buf_set buf2 (offset + 2) (js_and (js_shr val 8) 0xff)
      in buf_set buf3 (offset + 3) (js_and val 0xff))"

definition readU32 :: "byte list \<Rightarrow> nat \<Rightarrow> int" where
  "readU32 buf offset =
     js_or
       (js_or
          (js_and (byte_at buf offset) 0xff * 0x1000000
             + js_shl (js_and (byte_at buf (offset + 1)) 0xff) 16)
          (js_shl (js_and (byte_at buf (offset + 2)) 0xff) 8))
       (js_and (byte_at buf (offset + 3)) 0xff)"

section \<open>Round primitives\<close>

definition K :: "int list" where
  "K = [0x5a827999, 0x6ed9eba1, 0x8f1bbcdc, 0xca62c1d6]"

definition PADDING :: "byte list" where
  "PADDING = (replicate 64 0)[0 := 0x80]"

text \<open>
  In \<open>rotl32\<close> the count \<open>32 - b\<close> of the right shift is a number that may be
  negative; the shift reduces it modulo 32 to a count in \<open>0..31\<close>.
\<close>

definition rotl32 :: "int \<Rightarrow> nat \<Rightarrow> int" where
  "rotl32 x b = js_or (js_shl x b) (js_ushr x (nat ((32 - int b) mod 32)))"

definition ch32 :: "int \<Rightarrow> int \<Rightarrow> int \<Rightarrow> int" where
  "ch32 x y z = js_xor (js_and x y) (js_and (js_not x) z)"

definition maj32 :: "int \<Rightarrow> int \<Rightarrow> int \<Rightarrow> int" where
  "maj32 x y z = js_xor (js_xor (js_and x y) (js_and x z)) (js_and y z)"

definition p32 :: "int \<Rightarrow> int \<Rightarrow> int \<Rightarrow> int" where
  "p32 x y z = js_xor (js_xor x y) z"

text \<open>
  \<open>ft_1\<close> is split into the choice of its branch and the evaluation of the chosen
  branch, so that the branch taken can be named; the order of the tests is the source's.
\<close>

datatype branch = Ch | Parity | Maj | Fallback

definition ft_1_branch :: "nat \<Rightarrow> branch" where
  "ft_1_branch sel =
     (if sel = 0 then Ch
      else if sel = 1 \<or> sel = 3 then Parity
      else if sel = 2 then Maj
      else Fallback)"

definition ft_1 :: "nat \<Rightarrow> int \<Rightarrow> int \<Rightarrow> int \<Rightarrow> int" where
  "ft_1 sel x y z =
     (case ft_1_branch sel of
        Ch \<Rightarrow> ch32 x y z
      | Parity \<Rightarrow> p32 x y z
      | Maj \<Rightarrow> maj32 x y z
      | Fallback \<Rightarrow> 0)"

section \<open>The context and the block transform\<close>

text \<open>
  The fields of a \<open>SHA1\<close> object. \<open>new Array(n)\<close> has \<open>n\<close> empty slots; \<open>init\<close>
  writes the five slots of \<open>s\<close> and \<open>transform\<close> writes every slot of \<open>w\<close> before
  reading it, so the constructor's model fills them with 0. A context is used only after
  \<open>init\<close>: before it the code's sums over the empty slots of \<open>s\<close> are not numbers,
  which the model does not represent. \<open>bytes\<close> counts the bytes
  fed and is never negative; a JavaScript number holds it exactly below \<open>2 ^ 53\<close>.
\<close>

record sha1 =
  s :: "int list"
  w :: "int list"
  block :: "byte list"
  bytes :: nat

definition SHA1 :: "(nat \<Rightarrow> byte) \<Rightarrow> sha1" where
  "SHA1 mem = \<lparr>s = replicate 5 0, w = replicate 80 0, block = allocUnsafe mem 64, bytes = 0\<rparr>"

definition init :: "sha1 \<Rightarrow> sha1" where
  "init this =
     this\<lparr>s := (s this)[0 := 0x67452301, 1 := 0xefcdab89, 2 := 0x98badcfe,
                         3 := 0x10325476, 4 := 0xc3d2e1f0],
          bytes := 0\<rparr>"

text \<open>The first loop of \<open>transform\<close>: sixteen words read from the chunk.\<close>

definition load_words :: "byte list \<Rightarrow> nat \<Rightarrow> int list \<Rightarrow> int list" where
  "load_words chunk pos ws = fold (\<lambda>i v. v[i := readU32 chunk (pos + i * 4)]) [0..<16] ws"

text \<open>The second loop: slots 16 up to \<open>w.length\<close>.\<close>

definition expand_step :: "nat \<Rightarrow> int list \<Rightarrow> int list" where
  "expand_step i v =
     v[i := rotl32 (js_xor (js_xor (js_xor (v ! (i - 3)) (v ! (i - 8))) (v ! (i - 14)))
                           (v ! (i - 16))) 1]"

definition expand_words :: "int list \<Rightarrow> int list" where
  "expand_words ws = fold expand_step [16..<length ws] ws"

text \<open>
  One round of the third loop. \<open>i / 20 | 0\<close> truncates the quotient, which for an index
  \<open>i \<ge> 0\<close> is \<open>i div 20\<close>. The sum \<open>t\<close> is a plain sum of numbers.
\<close>

definition round_step :: "int list \<Rightarrow> nat \<Rightarrow> int \<times> int \<times> int \<times> int \<times> int
    \<Rightarrow> int \<times> int \<times> int \<times> int \<times> int" where
  "round_step v i st =
     (case st of (a, b, c, d, e) \<Rightarrow>
        (let sel = i div 20;
             t0 = rotl32 a 5;
             t1 = t0 + ft_1 sel b c d;
             t2 = t1 + e;
             t3 = t2 + v ! i;
             t4 = t3 + K ! sel
         in (t4, a, rotl32 b 30, c, d)))"

definition transform :: "sha1 \<Rightarrow> byte list \<Rightarrow> nat \<Rightarrow> sha1" where
  "transform this chunk pos =
     (let h = s this;
          v = expand_words (load_words chunk pos (w this))
      in case fold (round_step v) [0..<length v] (h ! 0, h ! 1, h ! 2, h ! 3, h ! 4) of
           (a, b, c, d, e) \<Rightarrow>
             (let h1 = h[0 := h ! 0 + a, 1 := h ! 1 + b, 2 := h ! 2 + c,
                         3 := h ! 3 + d, 4 := h ! 4 + e];
                  h2 = h1[0 := js_ushr (h1 ! 0) 0, 1 := js_ushr (h1 ! 1) 0,
                          2 := js_ushr (h1 ! 2) 0, 3 := js_ushr (h1 ! 3) 0,
                          4 := js_ushr (h1 ! 4) 0]
              in this\<lparr>s := h2, w := v\<rparr>))"

section \<open>Feeding and finalising\<close>

definition copy_bytes :: "byte list \<Rightarrow> nat \<Rightarrow> byte list \<Rightarrow> nat \<Rightarrow> nat \<Rightarrow> byte list" where
  "copy_bytes dst doff src soff n =
     fold (\<lambda>i b. buf_set b (doff + i) (byte_at src (soff + i))) [0..<n] dst"

text \<open>The \<open>while (len >= 64)\<close> loop of \<open>_update\<close>.\<close>

fun update_loop :: "sha1 \<Rightarrow> byte list \<Rightarrow> nat \<Rightarrow> nat \<Rightarrow> sha1 \<times> nat \<times> nat" where
  "update_loop this data pos len =
     (if len \<ge> 64 then update_loop (transform this data pos) data (pos + 64) (len - 64)
      else (this, pos, len))"

declare update_loop.simps [simp del]

text \<open>The loop followed by the copy of the remainder into \<open>block\<close>.\<close>

definition update_tail :: "sha1 \<Rightarrow> byte list \<Rightarrow> nat \<Rightarrow> nat \<Rightarrow> sha1" where
  "update_tail this data pos len =
     (case update_loop this data pos len of
        (this1, pos1, len1) \<Rightarrow> this1\<lparr>block := copy_bytes (block this1) 0 data pos1 len1\<rparr>)"

text \<open>
  \<open>_update(data, len)\<close>. \<open>this.bytes & 0x3f\<close> is the 32-bit conjunction of the counter.
\<close>

definition private_update :: "sha1 \<Rightarrow> byte list \<Rightarrow> nat \<Rightarrow> sha1" where
  "private_update this data len =
     (let size = nat (js_and (int (bytes this)) 0x3f);
          this1 = this\<lparr>bytes := bytes this + len\<rparr>
      in if size > 0 then
           (let want = (if 64 - size > len then len else 64 - size);
                this2 = this1\<lparr>block := copy_bytes (block this1) size data 0 want\<rparr>
            in if size + want < 64 then this2
               else update_tail (transform this2 (block this2) 0) data want (len - want))
         else update_tail this1 data 0 len)"

text \<open>
  \<open>_final(out)\<close>, with the module's scratch buffer \<open>DESC\<close> passed in and returned. The
  product \<open>len * (1 / 0x100000000)\<close> is exact, and the 32-bit operators of \<open>writeU32\<close>
  truncate it to \<open>len div 0x100000000\<close>.
\<close>

definition final_step :: "nat \<Rightarrow> byte list \<times> sha1 \<Rightarrow> byte list \<times> sha1" where
  "final_step i p =
     (case p of (out, this) \<Rightarrow>
        (writeU32 out (s this ! i) (i * 4), this\<lparr>s := (s this)[i := 0]\<rparr>))"

definition private_final :: "byte list \<Rightarrow> sha1 \<Rightarrow> byte list \<Rightarrow> byte list \<times> sha1 \<times> byte list" where
  "private_final desc this out =
     (let len = bytes this * 8;
          desc1 = writeU32 desc (int len div 0x100000000) 0;
          desc2 = writeU32 desc1 (int len) 4;
          this1 = private_update this PADDING (1 + ((119 - (bytes this mod 64)) mod 64));
          this2 = private_update this1 desc2 8
      in case fold final_step [0..<5] (out, this2) of
           (out1, this3) \<Rightarrow> (out1, this3, desc2))"

section \<open>The public methods\<close>

text \<open>
  A value passed where a Buffer is expected. \<open>assert\<close> throws an \<open>AssertionError\<close>,
  which in Node extends \<open>Error\<close> and is not a \<open>TypeError\<close>, the class that the
  specification names; both classes are constructors of \<open>error\<close>. A failing call
  returns the error with the context as the throw left it.
\<close>

datatype js_value =
    Buffer "byte list"
  | Uint8Array "byte list"
  | JString string
  | JNumber int
  | Undefined
  | Null

datatype error = AssertionError | TypeError

fun isBuffer :: "js_value \<Rightarrow> bool" where
  "isBuffer (Buffer bs) = True"
| "isBuffer v = False"

definition update :: "sha1 \<Rightarrow> js_value \<Rightarrow> error \<times> sha1 + sha1" where
  "update this data =
     (case data of
        Buffer bs \<Rightarrow> Inr (private_update this bs (length bs))
      | _ \<Rightarrow> Inl (AssertionError, this))"

definition final :: "(nat \<Rightarrow> byte) \<Rightarrow> byte list \<Rightarrow> sha1 \<Rightarrow> byte list \<times> sha1 \<times> byte list" where
  "final mem desc this = private_final desc this (allocUnsafe mem 20)"

section \<open>The module's shared state and the one-shot operations\<close>

text \<open>
  The module holds one scratch buffer \<open>DESC\<close> (eight bytes, \<open>Buffer.allocUnsafe(8)\<close>)
  and one context \<open>ctx\<close>, created when the module is loaded and used by every call of
  \<open>digest\<close> and \<open>root\<close>. A one-shot operation takes the module's state and returns it
  updated, next to its result.
\<close>

record module =
  DESC :: "byte list"
  ctx :: sha1

definition load_module :: "(nat \<Rightarrow> byte) \<Rightarrow> (nat \<Rightarrow> byte) \<Rightarrow> module" where
  "load_module mem1 mem2 = \<lparr>DESC = allocUnsafe mem1 8, ctx = SHA1 mem2\<rparr>"

definition digest :: "(nat \<Rightarrow> byte) \<Rightarrow> module \<Rightarrow> js_value
    \<Rightarrow> error \<times> module + byte list \<times> module" where
  "digest mem m data =
     (case update (init (ctx m)) data of
        Inl (err, this) \<Rightarrow> Inl (err, m\<lparr>ctx := this\<rparr>)
      | Inr this \<Rightarrow>
          (case final mem (DESC m) this of
             (out, this1, desc1) \<Rightarrow> Inr (out, \<lparr>DESC = desc1, ctx = this1\<rparr>)))"

text \<open>\<open>Buffer.isBuffer(v) && v.length === 20\<close>\<close>

definition isBuffer20 :: "js_value \<Rightarrow> bool" where
  "isBuffer20 v = (case v of Buffer bs \<Rightarrow> length bs = 20 | _ \<Rightarrow> False)"

definition root :: "(nat \<Rightarrow> byte) \<Rightarrow> module \<Rightarrow> js_value \<Rightarrow> js_value
    \<Rightarrow> error \<times> module + byte list \<times> module" where
  "root mem m left right =
     (if \<not> isBuffer20 left then Inl (AssertionError, m)
      else if \<not> isBuffer20 right then Inl (AssertionError, m)
      else
        (case update (init (ctx m)) left of
           Inl (err, this) \<Rightarrow> Inl (err, m\<lparr>ctx := this\<rparr>)
         | Inr this \<Rightarrow>
             (case update this right of
                Inl (err, this1) \<Rightarrow> Inl (err, m\<lparr>ctx := this1\<rparr>)
              | Inr this1 \<Rightarrow>
                  (case final mem (DESC m) this1 of
                     (out, this2, desc1) \<Rightarrow> Inr (out, \<lparr>DESC = desc1, ctx = this2\<rparr>)))))"

section \<open>The block transform as the specification words it\<close>

text \<open>
  The definitions of this section follow the specification's description of the block
  transform, on 32-bit words; they are compared with \<open>transform\<close> below. \<open>be32\<close> is
  the big-endian reading of four bytes, \<open>block_bytes chunk pos\<close> the 64 bytes of the
  chunk from \<open>pos\<close> on.
\<close>

type_synonym state5 = "32 word \<times> 32 word \<times> 32 word \<times> 32 word \<times> 32 word"

definition be32 :: "byte \<Rightarrow> byte \<Rightarrow> byte \<Rightarrow> byte \<Rightarrow> 32 word" where
  "be32 b0 b1 b2 b3 = of_nat (((unat b0 * 256 + unat b1) * 256 + unat b2) * 256 + unat b3)"

definition block_bytes :: "byte list \<Rightarrow> nat \<Rightarrow> byte list" where
  "block_bytes chunk pos = map (\<lambda>j. word_of_int (byte_at chunk (pos + j))) [0..<64]"

definition word_ch :: "32 word \<Rightarrow> 32 word \<Rightarrow> 32 word \<Rightarrow> 32 word" where
  "word_ch x y z = (x AND y) XOR (NOT x AND z)"

definition word_parity :: "32 word \<Rightarrow> 32 word \<Rightarrow> 32 word \<Rightarrow> 32 word" where
  "word_parity x y z = x XOR y XOR z"

definition word_maj :: "32 word \<Rightarrow> 32 word \<Rightarrow> 32 word \<Rightarrow> 32 word" where
  "word_maj x y z = (x AND y) XOR (x AND z) XOR (y AND z)"

text \<open>Slots 0 to 15 are read from the block, the later ones expanded from earlier ones.\<close>

fun schedule :: "byte list \<Rightarrow> nat \<Rightarrow> 32 word" where
  "schedule blk i =
     (if i < 16 then be32 (blk ! (4 * i)) (blk ! (4 * i + 1)) (blk ! (4 * i + 2)) (blk ! (4 * i + 3))
      else word_rotl 1 (schedule blk (i - 3) XOR schedule blk (i - 8)
                          XOR schedule blk (i - 14) XOR schedule blk (i - 16)))"

declare schedule.simps [simp del]

text \<open>The round function and the round constant, chosen by the range of the round.\<close>

definition round_f :: "nat \<Rightarrow> 32 word \<Rightarrow> 32 word \<Rightarrow> 32 word \<Rightarrow> 32 word" where
  "round_f i b c d =
     (if i < 20 then word_ch b c d
      else if i < 40 then word_parity b c d
      else if i < 60 then word_maj b c d
      else word_parity b c d)"

definition round_k :: "nat \<Rightarrow> 32 word" where
  "round_k i =
     (if i < 20 then 0x5a827999
      else if i < 40 then 0x6ed9eba1
      else if i < 60 then 0x8f1bbcdc
      else 0xca62c1d6)"

definition spec_round :: "byte list \<Rightarrow> nat \<Rightarrow> state5 \<Rightarrow> state5" where
  "spec_round blk i st =
     (case st of (a, b, c, d, e) \<Rightarrow>
        (let t = word_rotl 5 a + round_f i b c d + e + schedule blk i + round_k i
         in (t, a, word_rotl 30 b, c, d)))"

text \<open>Eighty rounds, then the working variables are added to the state words.\<close>

definition spec_transform :: "state5 \<Rightarrow> byte list \<Rightarrow> state5" where
  "spec_transform st blk =
     (case st of (h0, h1, h2, h3, h4) \<Rightarrow>
        (case fold (spec_round blk) [0..<80] st of
           (a, b, c, d, e) \<Rightarrow> (h0 + a, h1 + b, h2 + c, h3 + d, h4 + e)))"

text \<open>The numbers of the context read as words, and words written back as numbers.\<close>

definition hw5 :: "int \<times> int \<times> int \<times> int \<times> int \<Rightarrow> state5" where
  "hw5 st = (case st of (a, b, c, d, e) \<Rightarrow>
     (word_of_int a, word_of_int b, word_of_int c, word_of_int d, word_of_int e))"

definition state_words :: "int list \<Rightarrow> state5" where
  "state_words h = (word_of_int (h ! 0), word_of_int (h ! 1), word_of_int (h ! 2),
                    word_of_int (h ! 3), word_of_int (h ! 4))"

definition words_state :: "state5 \<Rightarrow> int list" where
  "words_state st =
     (case st of (h0, h1, h2, h3, h4) \<Rightarrow> [uint h0, uint h1, uint h2, uint h3, uint h4])"

section \<open>The stream as the specification words it\<close>

text \<open>
  A context is well formed when its arrays have the sizes the constructor gives them.
  Its pending bytes are the first \<open>bytes mod 64\<close> bytes of \<open>block\<close>.
\<close>

definition wf_ctx :: "sha1 \<Rightarrow> bool" where
  "wf_ctx this = (length (s this) = 5 \<and> length (w this) = 80 \<and> length (block this) = 64)"

definition wf_module :: "module \<Rightarrow> bool" where
  "wf_module m = (length (DESC m) = 8 \<and> wf_ctx (ctx m))"

definition pending :: "sha1 \<Rightarrow> byte list" where
  "pending this = take (bytes this mod 64) (block this)"

text \<open>
  \<open>absorb\<close> compresses the complete 64-byte blocks of a byte sequence in order, each
  block's input state being the previous block's output; \<open>rem64\<close> is what is left over.
\<close>

fun absorb :: "state5 \<Rightarrow> byte list \<Rightarrow> state5" where
  "absorb st xs =
     (if length xs \<ge> 64 then absorb (spec_transform st (take 64 xs)) (drop 64 xs) else st)"

declare absorb.simps [simp del]

definition rem64 :: "byte list \<Rightarrow> byte list" where
  "rem64 xs = drop (length xs - length xs mod 64) xs"

text \<open>Big-endian bytes of a word, the serialised state, and the 8-byte length trailer.\<close>

definition be_bytes32 :: "32 word \<Rightarrow> byte list" where
  "be_bytes32 x = [ucast (drop_bit 24 x), ucast (drop_bit 16 x), ucast (drop_bit 8 x), ucast x]"

definition digest_bytes :: "state5 \<Rightarrow> byte list" where
  "digest_bytes st = (case st of (h0, h1, h2, h3, h4) \<Rightarrow>
     be_bytes32 h0 @ be_bytes32 h1 @ be_bytes32 h2 @ be_bytes32 h3 @ be_bytes32 h4)"

definition be64 :: "nat \<Rightarrow> byte list" where
  "be64 n = [of_nat (n div 2 ^ 56), of_nat (n div 2 ^ 48), of_nat (n div 2 ^ 40), of_nat (n div 2 ^ 32),
             of_nat (n div 2 ^ 24), of_nat (n div 2 ^ 16), of_nat (n div 2 ^ 8), of_nat n]"

text \<open>The number that a big-endian byte sequence denotes.\<close>

definition be_nat :: "byte list \<Rightarrow> nat" where
  "be_nat bs = foldl (\<lambda>acc b. acc * 256 + unat b) 0 bs"

text \<open>
  The padding after \<open>n\<close> bytes: one byte \<open>0x80\<close>, then zero bytes; and the hash of a
  message: initial state, the padded message absorbed, the state serialised.
\<close>

definition padding :: "nat \<Rightarrow> byte list" where
  "padding n = 0x80 # replicate ((119 - n mod 64) mod 64) 0"

definition IV :: state5 where
  "IV = (0x67452301, 0xefcdab89, 0x98badcfe, 0x10325476, 0xc3d2e1f0)"

definition sha1_of :: "byte list \<Rightarrow> byte list" where
  "sha1_of msg = digest_bytes (absorb IV (msg @ padding (length msg) @ be64 (length msg * 8)))"

text \<open>\<open>_final\<close> zeroes the state words.\<close>

definition wiped :: "sha1 \<Rightarrow> sha1" where
  "wiped this = this\<lparr>s := [0, 0, 0, 0, 0]\<rparr>"

section \<open>Callers\<close>

text \<open>
  Programs of a caller, to state the laws of the interface: feeding chunks one after
  the other, finalising the outcome of a feed, one whole run on a context, and the
  outcome of a one-shot operation without the module's state.
\<close>

fun feed_chunks :: "sha1 \<Rightarrow> byte list list \<Rightarrow> error \<times> sha1 + sha1" where
  "feed_chunks this [] = Inr this"
| "feed_chunks this (x # xs) =
     (case update this (Buffer x) of
        Inl err \<Rightarrow> Inl err
      | Inr this1 \<Rightarrow> feed_chunks this1 xs)"

definition finish :: "(nat \<Rightarrow> byte) \<Rightarrow> byte list \<Rightarrow> error \<times> sha1 + sha1 \<Rightarrow> error + byte list" where
  "finish mem desc r =
     (case r of
        Inl (err, this) \<Rightarrow> Inl err
      | Inr this \<Rightarrow> (case final mem desc this of (out, this1, desc1) \<Rightarrow> Inr out))"

definition run :: "(nat \<Rightarrow> byte) \<Rightarrow> byte list \<Rightarrow> sha1 \<Rightarrow> js_value
    \<Rightarrow> error \<times> sha1 \<times> byte list + byte list \<times> sha1 \<times> byte list" where
  "run mem desc this data =
     (case update (init this) data of
        Inl (err, this1) \<Rightarrow> Inl (err, this1, desc)
      | Inr this1 \<Rightarrow> Inr (final mem desc this1))"

definition outcome :: "error \<times> module + byte list \<times> module \<Rightarrow> error + byte list" where
  "outcome r = (case r of Inl (err, m) \<Rightarrow> Inl err | Inr (out, m) \<Rightarrow> Inr out)"

definition state_after :: "error \<times> module + byte list \<times> module \<Rightarrow> module" where
  "state_after r = (case r of Inl (err, m) \<Rightarrow> m | Inr (out, m) \<Rightarrow> m)"

text \<open>Hexadecimal notation of a byte sequence, as the specification prints digests.\<close>

definition hex_digit :: "nat \<Rightarrow> char" where
  "hex_digit n = ''0123456789abcdef'' ! (n mod 16)"

definition to_hex :: "byte list \<Rightarrow> string" where
  "to_hex bs = concat (map (\<lambda>b. [hex_digit (unat b div 16), hex_digit (unat b mod 16)]) bs)"

text \<open>The context that \<open>_final\<close> leaves behind.\<close>

definition finalised :: "sha1 \<Rightarrow> sha1" where
  "finalised this =
     wiped (private_update (private_update this PADDING (1 + (119 - bytes this mod 64) mod 64))
              (be64 (bytes this * 8)) 8)"

text \<open>Concrete values for the examples: a fresh context and a freshly loaded module.\<close>

definition ctx0 :: sha1 where
  "ctx0 = SHA1 (\<lambda>i. 0)"

definition module0 :: module where
  "module0 = load_module (\<lambda>i. 0) (\<lambda>i. 0)"

definition abc :: "byte list" where
  "abc = [0x61, 0x62, 0x63]"

text \<open>The one block of the padded message \<open>abc\<close>.\<close>

definition abc_block :: "byte list" where
  "abc_block = [0x61, 0x62, 0x63, 0x80] @ replicate 59 0 @ [0x18]"

text \<open>The error that a call of \<open>update\<close> throws, if any.\<close>

definition thrown :: "error \<times> sha1 + sha1 \<Rightarrow> error option" where
  "thrown r = (case r of Inl (err, this) \<Rightarrow> Some err | Inr this \<Rightarrow> None)"

text \<open>The outcome of a one-shot operation with the digest in hexadecimal.\<close>

definition outcome_hex :: "error \<times> module + byte list \<times> module \<Rightarrow> error + string" where
  "outcome_hex r = (case outcome r of Inl err \<Rightarrow> Inl err | Inr out \<Rightarrow> Inr (to_hex out))"

section \<open>The 32-bit operators on words\<close>

lemma W_and [simp]: "(word_of_int (js_and x y) :: 32 word) = word_of_int x AND word_of_int y"
  by (simp add: js_and_def)

lemma W_or [simp]: "(word_of_int (js_or x y) :: 32 word) = word_of_int x OR word_of_int y"
  by (simp add: js_or_def)

lemma W_xor [simp]: "(word_of_int (js_xor x y) :: 32 word) = word_of_int x XOR word_of_int y"
  by (simp add: js_xor_def)

lemma W_not [simp]: "(word_of_int (js_not x) :: 32 word) = NOT (word_of_int x)"
  by (simp add: js_not_def)

lemma W_shl [simp]: "(word_of_int (js_shl x n) :: 32 word) = push_bit (n mod 32) (word_of_int x)"
  by (simp add: js_shl_def)

lemma W_shr [simp]: "(word_of_int (js_shr x n) :: 32 word) = signed_drop_bit (n mod 32) (word_of_int x)"
  by (simp add: js_shr_def)

lemma W_ushr [simp]: "(word_of_int (js_ushr x n) :: 32 word) = drop_bit (n mod 32) (word_of_int x)"
  by (simp add: js_ushr_def)

lemma rotl_word: 
  fixes x :: "32 word"
  assumes "0 < b" "b < 32"
  shows "push_bit b x OR drop_bit (32 - b) x = word_rotl b x"
proof (rule bit_word_eqI)
  fix n assume n: "n < LENGTH(32)"
  show "bit (push_bit b x OR drop_bit (32 - b) x) n = bit (word_rotl b x) n"
  proof (cases "b \<le> n")
    case True
    have "\<not> bit x (32 - b + n)"
      using True assms bit_imp_le_length [of x "32 - b + n"] by auto
    moreover have "(n + (32 - b)) mod 32 = n - b"
      using True n assms by (auto simp add: mod_if)
    ultimately show ?thesis using True n assms
      by (simp add: bit_simps)
  next
    case False
    have "(n + (32 - b)) mod 32 = 32 - b + n"
      using False n assms by (auto simp add: mod_if)
    then show ?thesis using False n assms
      by (simp add: bit_simps)
  qed
qed

lemma W_rotl32:
  assumes "0 < b" "b < 32"
  shows "(word_of_int (rotl32 x b) :: 32 word) = word_rotl b (word_of_int x)"
proof -
  have "0 \<le> 32 - int b" "32 - int b < 32"
    using assms by simp_all
  then have "(32 - int b) mod 32 = 32 - int b"
    by (rule mod_pos_pos_trivial)
  moreover have "nat (32 - int b) = 32 - b"
    by arith
  ultimately have "nat ((32 - int b) mod 32) = 32 - b"
    by (simp only:)
  then show ?thesis
    using assms by (simp add: rotl32_def rotl_word)
qed

lemma byte_at_range: "0 \<le> byte_at buf i \<and> byte_at buf i < 256"
  using uint_bounded [of "buf ! i"] by (simp add: byte_at_def)

lemma js_and_ff: "0 \<le> v \<Longrightarrow> v < 256 \<Longrightarrow> js_and v 0xff = v"
proof -
  assume a: "0 \<le> v" "v < 256"
  have "(word_of_int v :: 32 word) AND 0xff = word_of_int (uint (word_of_int v :: 32 word) mod 2 ^ 8)"
    using and_mask_mod_2p [of "word_of_int v :: 32 word" 8] by (simp add: mask_eq_exp_minus_1)
  also have "uint (word_of_int v :: 32 word) = v"
    using a by (simp add: uint_word_of_int)
  also have "v mod 2 ^ 8 = v" using a by simp
  finally have "(word_of_int v :: 32 word) AND 0xff = word_of_int v" .
  then have "js_and v 0xff = sint (word_of_int v :: 32 word)"
    by (simp add: js_and_def)
  also have "\<dots> = v" using a
    by (simp add: sint_uint uint_word_of_int signed_take_bit_eq_if_positive bit_iff_odd take_bit_eq_mod)
  finally show ?thesis .
qed

lemma be32_or:
  "be32 b0 b1 b2 b3 = (ucast b0 * 0x1000000 + push_bit 16 (ucast b1)) OR push_bit 8 (ucast b2) OR ucast b3"
proof -
  have d1: "(ucast b0 * 0x1000000 :: 32 word) = push_bit 24 (ucast b0)"
    by (simp add: push_bit_eq_mult)
  have a1: "push_bit 24 (ucast b0 :: 32 word) + push_bit 16 (ucast b1) = push_bit 24 (ucast b0) OR push_bit 16 (ucast b1)"
    by (rule disjunctive_add) (auto simp add: bit_simps dest: bit_imp_le_length)
  have a2: "(push_bit 24 (ucast b0 :: 32 word) OR push_bit 16 (ucast b1)) + push_bit 8 (ucast b2) = (push_bit 24 (ucast b0) OR push_bit 16 (ucast b1)) OR push_bit 8 (ucast b2)"
    by (rule disjunctive_add) (auto simp add: bit_simps dest: bit_imp_le_length)
  have a3: "((push_bit 24 (ucast b0 :: 32 word) OR push_bit 16 (ucast b1)) OR push_bit 8 (ucast b2)) + ucast b3 = ((push_bit 24 (ucast b0) OR push_bit 16 (ucast b1)) OR push_bit 8 (ucast b2)) OR ucast b3"
    by (rule disjunctive_add) (auto simp add: bit_simps dest: bit_imp_le_length)
  have "be32 b0 b1 b2 b3 = ((push_bit 24 (ucast b0) + push_bit 16 (ucast b1)) + push_bit 8 (ucast b2)) + ucast b3"
    by (simp add: be32_def push_bit_eq_mult algebra_simps)
  also have "\<dots> = ((push_bit 24 (ucast b0) OR push_bit 16 (ucast b1)) OR push_bit 8 (ucast b2)) OR ucast b3"
    by (simp only: a1 a2 a3)
  finally show ?thesis
    by (simp only: d1 a1 or.assoc)
qed

lemma W_byte_at: "(word_of_int (byte_at buf i) :: 32 word) = ucast (word_of_int (byte_at buf i) :: byte)"
  by (simp add: byte_at_def)

lemma be32_read:
  "(word_of_int (readU32 chunk off) :: 32 word) = 
     be32 (word_of_int (byte_at chunk off)) (word_of_int (byte_at chunk (off+1))) (word_of_int (byte_at chunk (off+2))) (word_of_int (byte_at chunk (off+3)))"
  using byte_at_range [of chunk off] byte_at_range [of chunk "off+1"] byte_at_range [of chunk "off+2"] byte_at_range [of chunk "off+3"]
  apply (simp add: readU32_def be32_or js_and_ff)
  apply (simp add: W_byte_at or.assoc)
  done

lemma readU32_sint: "sint (word_of_int (readU32 chunk off) :: 32 word) = readU32 chunk off"
  by (simp add: readU32_def js_or_def)

lemma rotl32_sint: "sint (word_of_int (rotl32 x b) :: 32 word) = rotl32 x b"
  by (simp add: rotl32_def js_or_def)

lemma fold_set_length:
  "length (fold (\<lambda>i v. v[i := f i]) xs ws) = length ws"
  by (induction xs arbitrary: ws) simp_all

lemma fold_set_nth:
  "j < length ws \<Longrightarrow>
   fold (\<lambda>i v. v[i := f i]) [0..<n] ws ! j = (if j < n then f j else ws ! j)"
proof (induction n)
  case 0
  then show ?case by simp
next
  case (Suc n)
  then show ?case
    by (cases "j = n") (auto simp add: fold_set_length nth_list_update)
qed

lemma length_load_words: "length (load_words chunk pos ws) = length ws"
  by (simp add: load_words_def fold_set_length)

lemma block_bytes_nth:
  "j < 64 \<Longrightarrow> block_bytes chunk pos ! j = word_of_int (byte_at chunk (pos + j))"
  by (simp add: block_bytes_def)

lemma length_block_bytes: "length (block_bytes chunk pos) = 64"
  by (simp add: block_bytes_def)

lemma load_words_nth:
  assumes "j < 16" "j < length ws"
  shows "load_words chunk pos ws ! j = sint (schedule (block_bytes chunk pos) j)"
proof -
  have "load_words chunk pos ws ! j = readU32 chunk (pos + j * 4)"
    using assms by (simp add: load_words_def fold_set_nth)
  moreover have "(word_of_int (readU32 chunk (pos + j * 4)) :: 32 word) = schedule (block_bytes chunk pos) j"
    using assms(1)
    by (simp add: be32_read schedule.simps [of _ j] block_bytes_nth algebra_simps)
  ultimately show ?thesis
    using readU32_sint [of chunk "pos + j * 4"] by simp
qed

lemma load_words_nth_ge:
  assumes "16 \<le> j" "j < length ws"
  shows "load_words chunk pos ws ! j = ws ! j"
  using assms by (simp add: load_words_def fold_set_nth)

lemma length_expand_step: "length (expand_step i v) = length v"
  by (simp add: expand_step_def)

lemma length_fold_expand: "length (fold expand_step xs v) = length v"
  by (induction xs arbitrary: v) (simp_all add: length_expand_step)

lemma fold_expand_nth:
  assumes "\<forall>i<16. v ! i = sint (schedule blk i)" "16 \<le> length v"
  shows "k \<le> length v \<Longrightarrow> i < k \<Longrightarrow> fold expand_step [16..<k] v ! i = sint (schedule blk i)"
proof (induction k arbitrary: i)
  case 0
  then show ?case by simp
next
  case (Suc k)
  show ?case
  proof (cases "16 \<le> k")
    case False
    then have "[16..<Suc k] = []" by simp
    moreover have "i < 16" using False Suc.prems by simp
    ultimately show ?thesis using assms by simp
  next
    case True
    let ?u = "fold expand_step [16..<k] v"
    have len: "length ?u = length v" by (simp add: length_fold_expand)
    have prev: "\<And>j. j < k \<Longrightarrow> ?u ! j = sint (schedule blk j)"
      using Suc by simp
    have st: "fold expand_step [16..<Suc k] v = expand_step k ?u"
      using True by simp
    show ?thesis
    proof (cases "i = k")
      case False
      then have "i < k" using Suc.prems by simp
      moreover have "expand_step k ?u ! i = ?u ! i"
        using False by (simp add: expand_step_def)
      ultimately show ?thesis using prev [of i]
        by (simp only: st)
    next
      case ik: True
      have "expand_step k ?u ! k =
          rotl32 (js_xor (js_xor (js_xor (?u ! (k - 3)) (?u ! (k - 8))) (?u ! (k - 14))) (?u ! (k - 16))) 1"
        using len Suc.prems by (simp add: expand_step_def)
      also have "\<dots> = sint (word_of_int \<dots> :: 32 word)"
        by (simp only: rotl32_sint)
      also have "(word_of_int (rotl32 (js_xor (js_xor (js_xor (?u ! (k - 3)) (?u ! (k - 8))) (?u ! (k - 14))) (?u ! (k - 16))) 1) :: 32 word)
           = schedule blk k"
        using True prev [of "k - 3"] prev [of "k - 8"] prev [of "k - 14"] prev [of "k - 16"]
        by (simp add: W_rotl32 schedule.simps [of _ k] xor.assoc)
      finally show ?thesis using ik by (simp only: st)
    qed
  qed
qed

lemma expand_load_eq:
  assumes "length ws = 80"
  shows "expand_words (load_words chunk pos ws) = map (\<lambda>i. sint (schedule (block_bytes chunk pos) i)) [0..<80]"
proof (rule nth_equalityI)
  show "length (expand_words (load_words chunk pos ws)) = length (map (\<lambda>i. sint (schedule (block_bytes chunk pos) i)) [0..<80])"
    using assms by (simp add: expand_words_def length_fold_expand length_load_words del: upt_rec_numeral)
next
  fix i assume "i < length (expand_words (load_words chunk pos ws))"
  then have i: "i < 80"
    using assms by (simp add: expand_words_def length_fold_expand length_load_words del: upt_rec_numeral)
  have "fold expand_step [16..<80] (load_words chunk pos ws) ! i = sint (schedule (block_bytes chunk pos) i)"
    using assms i
    by (intro fold_expand_nth) (simp_all add: load_words_nth length_load_words)
  then show "expand_words (load_words chunk pos ws) ! i = map (\<lambda>i. sint (schedule (block_bytes chunk pos) i)) [0..<80] ! i"
    using assms i by (simp add: expand_words_def length_load_words del: upt_rec_numeral)
qed

lemma sel_cases:
  fixes i :: nat
  assumes "i < 80"
  obtains "i < 20" "i div 20 = 0" | "20 \<le> i" "i < 40" "i div 20 = 1"
    | "40 \<le> i" "i < 60" "i div 20 = 2" | "60 \<le> i" "i div 20 = 3"
proof -
  consider "i < 20" | "20 \<le> i \<and> i < 40" | "40 \<le> i \<and> i < 60" | "60 \<le> i \<and> i < 80"
    using assms by linarith
  then show thesis
  proof cases
    case 1 then show ?thesis using that(1) by simp
  next
    case 2 then have "i div 20 = 1" by (intro div_nat_eqI) simp_all
    then show ?thesis using 2 that(2) by simp
  next
    case 3 then have "i div 20 = 2" by (intro div_nat_eqI) simp_all
    then show ?thesis using 3 that(3) by simp
  next
    case 4 then have "i div 20 = 3" by (intro div_nat_eqI) simp_all
    then show ?thesis using 4 that(4) by simp
  qed
qed

lemma ft_1_word:
  assumes "i < 80"
  shows "(word_of_int (ft_1 (i div 20) b c d) :: 32 word)
           = round_f i (word_of_int b) (word_of_int c) (word_of_int d)"
  using assms
  by (cases i rule: sel_cases)
     (simp_all add: ft_1_def ft_1_branch_def round_f_def ch32_def p32_def maj32_def
        word_ch_def word_parity_def word_maj_def xor.assoc)

lemma K_word:
  assumes "i < 80"
  shows "(word_of_int (K ! (i div 20)) :: 32 word) = round_k i"
  using assms
  by (cases i rule: sel_cases) (simp_all add: K_def round_k_def)

lemma round_step_word:
  assumes "i < 80" "(word_of_int (v ! i) :: 32 word) = schedule blk i"
  shows "hw5 (round_step v i st) = spec_round blk i (hw5 st)"
proof -
  obtain a b c d e where st: "st = (a, b, c, d, e)"
    by (cases st)
  show ?thesis
    using assms
    by (simp add: st hw5_def round_step_def spec_round_def Let_def W_rotl32 ft_1_word K_word)
qed

lemma fold_round_word:
  assumes "\<And>i. i < 80 \<Longrightarrow> (word_of_int (v ! i) :: 32 word) = schedule blk i"
  shows "(\<And>i. i \<in> set xs \<Longrightarrow> i < 80) \<Longrightarrow>
         hw5 (fold (round_step v) xs st) = fold (spec_round blk) xs (hw5 st)"
proof (induction xs arbitrary: st)
  case Nil
  then show ?case by simp
next
  case (Cons x xs)
  have "x < 80" using Cons.prems by simp
  then have "hw5 (round_step v x st) = spec_round blk x (hw5 st)"
    using assms by (simp add: round_step_word)
  moreover have "hw5 (fold (round_step v) xs (round_step v x st))
      = fold (spec_round blk) xs (hw5 (round_step v x st))"
    using Cons.prems by (intro Cons.IH) simp
  ultimately show ?case by simp
qed

lemma list5:
  assumes "length h = 5"
  obtains x0 x1 x2 x3 x4 where "h = [x0, x1, x2, x3, x4]"
  using assms by (auto simp add: length_Suc_conv eval_nat_numeral)

lemma ushr0: "js_ushr x 0 = uint (word_of_int x :: 32 word)"
  by (simp add: js_ushr_def)

lemma transform_refines:
  assumes "length (s this) = 5" "length (w this) = 80"
  shows "transform this chunk pos =
           this\<lparr>s := words_state (spec_transform (state_words (s this)) (block_bytes chunk pos)),
                w := map (\<lambda>i. sint (schedule (block_bytes chunk pos) i)) [0..<80]\<rparr>"
proof -
  let ?blk = "block_bytes chunk pos"
  let ?v = "map (\<lambda>i. sint (schedule ?blk i)) [0..<80]"
  obtain x0 x1 x2 x3 x4 where h: "s this = [x0, x1, x2, x3, x4]"
    using assms(1) by (rule list5)
  have v: "expand_words (load_words chunk pos (w this)) = ?v"
    using assms(2) by (rule expand_load_eq)
  have lv: "length ?v = 80" by simp
  have vi: "\<And>i. i < 80 \<Longrightarrow> (word_of_int (?v ! i) :: 32 word) = schedule ?blk i"
    by (simp del: upt_rec_numeral)
  obtain a b c d e where r: "fold (round_step ?v) [0..<80] (x0, x1, x2, x3, x4) = (a, b, c, d, e)"
    by (cases "fold (round_step ?v) [0..<80] (x0, x1, x2, x3, x4)")
  have "hw5 (fold (round_step ?v) [0..<80] (x0, x1, x2, x3, x4))
          = fold (spec_round ?blk) [0..<80] (hw5 (x0, x1, x2, x3, x4))"
    using vi by (intro fold_round_word) (simp_all del: upt_rec_numeral)
  then have sp: "fold (spec_round ?blk) [0..<80] (state_words (s this))
          = (word_of_int a, word_of_int b, word_of_int c, word_of_int d, word_of_int e)"
    by (simp add: r h hw5_def state_words_def del: upt_rec_numeral)
  have "transform this chunk pos = this\<lparr>s := [js_ushr (x0 + a) 0, js_ushr (x1 + b) 0, js_ushr (x2 + c) 0,
              js_ushr (x3 + d) 0, js_ushr (x4 + e) 0], w := ?v\<rparr>"
    unfolding transform_def v Let_def lv h using r
    by (simp del: upt_rec_numeral)
  moreover have "words_state (spec_transform (state_words (s this)) ?blk)
      = [js_ushr (x0 + a) 0, js_ushr (x1 + b) 0, js_ushr (x2 + c) 0, js_ushr (x3 + d) 0, js_ushr (x4 + e) 0]"
    unfolding spec_transform_def sp
    by (simp add: h state_words_def words_state_def ushr0)
  ultimately show ?thesis by simp
qed

lemma size_mask: "nat (js_and (int n) 0x3f) = n mod 64"
proof -
  have "(word_of_int (int n) :: 32 word) AND 0x3f = word_of_int (uint (word_of_int (int n) :: 32 word) mod 2 ^ 6)"
    using and_mask_mod_2p [of "word_of_int (int n) :: 32 word" 6] by (simp add: mask_eq_exp_minus_1)
  also have "uint (word_of_int (int n) :: 32 word) mod 2 ^ 6 = int n mod 64"
  proof -
    have "uint (word_of_int (int n) :: 32 word) = int n mod 2 ^ LENGTH(32)"
      by (rule uint_word_of_int)
    then have "uint (word_of_int (int n) :: 32 word) mod 64 = (int n mod 4294967296) mod 64"
      by simp
    also have "\<dots> = int n mod 64"
      by (rule mod_mod_cancel) simp
    finally show ?thesis by simp
  qed
  finally have e: "(word_of_int (int n) :: 32 word) AND 0x3f = word_of_int (int n mod 64)" .
  have r: "0 \<le> int n mod 64" "int n mod 64 < 64" by simp_all
  have "sint (word_of_int (int n mod 64) :: 32 word) = int n mod 64"
    using r
    by (simp add: sint_uint uint_word_of_int signed_take_bit_eq_if_positive bit_iff_odd take_bit_eq_mod)
  moreover have "js_and (int n) 0x3f = sint ((word_of_int (int n) :: 32 word) AND 0x3f)"
    by (simp add: js_and_def)
  ultimately have "js_and (int n) 0x3f = int n mod 64"
    by (simp only: e)
  then show ?thesis
    by (simp add: nat_mod_distrib)
qed

lemma fold_off_length:
  "length (fold (\<lambda>i v. v[k + i := f i]) xs ws) = length ws"
  by (induction xs arbitrary: ws) simp_all

lemma fold_off_nth:
  "j < length ws \<Longrightarrow>
   fold (\<lambda>i v. v[k + i := f i]) [0..<n] ws ! j = (if k \<le> j \<and> j < k + n then f (j - k) else ws ! j)"
proof (induction n)
  case 0
  then show ?case by auto
next
  case (Suc n)
  then show ?case
    by (cases "j = k + n") (auto simp add: fold_off_length nth_list_update)
qed

lemma length_copy_bytes: "length (copy_bytes dst doff src soff n) = length dst"
  by (simp add: copy_bytes_def buf_set_def fold_off_length)

lemma copy_bytes_nth:
  assumes "j < length dst" "soff + n \<le> length src"
  shows "copy_bytes dst doff src soff n ! j =
           (if doff \<le> j \<and> j < doff + n then src ! (soff + (j - doff)) else dst ! j)"
proof -
  have "copy_bytes dst doff src soff n ! j =
          (if doff \<le> j \<and> j < doff + n then word_of_int (byte_at src (soff + (j - doff))) else dst ! j)"
    using assms(1) by (simp add: copy_bytes_def buf_set_def fold_off_nth)
  moreover have "(word_of_int (byte_at src (soff + (j - doff))) :: byte) = src ! (soff + (j - doff))"
    if "doff \<le> j \<and> j < doff + n"
  proof -
    have "soff + (j - doff) < length src" using that assms(2) by arith
    then show ?thesis by (simp only: byte_at_def if_True word_of_int_uint)
  qed
  ultimately show ?thesis by simp
qed

lemma take_copy_bytes:
  assumes "doff + n \<le> length dst" "soff + n \<le> length src"
  shows "take (doff + n) (copy_bytes dst doff src soff n) = take doff dst @ take n (drop soff src)"
proof (rule nth_equalityI)
  show "length (take (doff + n) (copy_bytes dst doff src soff n)) = length (take doff dst @ take n (drop soff src))"
    using assms by (simp add: length_copy_bytes)
next
  fix i assume "i < length (take (doff + n) (copy_bytes dst doff src soff n))"
  then have i: "i < doff + n" by simp
  then have "i < length dst" using assms by simp
  then show "take (doff + n) (copy_bytes dst doff src soff n) ! i = (take doff dst @ take n (drop soff src)) ! i"
    using i assms by (auto simp add: copy_bytes_nth nth_append)
qed

lemma block_bytes_take:
  assumes "pos + 64 \<le> length data"
  shows "block_bytes data pos = take 64 (drop pos data)"
proof (rule nth_equalityI)
  show "length (block_bytes data pos) = length (take 64 (drop pos data))"
    using assms by (simp add: length_block_bytes)
next
  fix i assume "i < length (block_bytes data pos)"
  then have "i < 64" by (simp add: length_block_bytes)
  then show "block_bytes data pos ! i = take 64 (drop pos data) ! i"
    using assms by (simp add: block_bytes_nth byte_at_def)
qed

lemma state_words_words_state: "state_words (words_state st) = st"
  by (cases st) (simp add: state_words_def words_state_def)

lemma length_words_state: "length (words_state st) = 5"
  by (cases st) (simp add: words_state_def)

lemma transform_wf:
  assumes "wf_ctx this" "pos + 64 \<le> length data"
  shows "wf_ctx (transform this data pos)"
    and "state_words (s (transform this data pos)) = spec_transform (state_words (s this)) (take 64 (drop pos data))"
    and "block (transform this data pos) = block this"
    and "bytes (transform this data pos) = bytes this"
  using assms
  by (simp_all add: wf_ctx_def transform_refines block_bytes_take state_words_words_state length_words_state del: upt_rec_numeral)

lemma absorb_short: "length xs < 64 \<Longrightarrow> absorb st xs = st"
  by (simp add: absorb.simps [of st xs])

lemma absorb_long:
  "64 \<le> length xs \<Longrightarrow> absorb st xs = absorb (spec_transform st (take 64 xs)) (drop 64 xs)"
  by (simp add: absorb.simps [of st xs])

lemma update_loop_props:
  "wf_ctx this \<Longrightarrow> pos + len \<le> length data \<Longrightarrow>
   update_loop this data pos len = (this', pos', len') \<Longrightarrow>
     wf_ctx this' \<and> block this' = block this \<and> bytes this' = bytes this
     \<and> pos' = pos + (len - len mod 64) \<and> len' = len mod 64
     \<and> state_words (s this') = absorb (state_words (s this)) (take len (drop pos data))"
proof (induction this data pos len rule: update_loop.induct)
  case (1 this data pos len)
  show ?case
  proof (cases "64 \<le> len")
    case False
    then show ?thesis using "1.prems"
      by (auto simp add: update_loop.simps [of this] absorb_short)
  next
    case True
    let ?t = "transform this data pos"
    have p64: "pos + 64 \<le> length data" using True "1.prems" by simp
    have rec: "update_loop ?t data (pos + 64) (len - 64) = (this', pos', len')"
      using True "1.prems" by (simp add: update_loop.simps [of this])
    have ih: "wf_ctx this' \<and> block this' = block ?t \<and> bytes this' = bytes ?t
       \<and> pos' = pos + 64 + (len - 64 - (len - 64) mod 64) \<and> len' = (len - 64) mod 64
       \<and> state_words (s this') = absorb (state_words (s ?t)) (take (len - 64) (drop (pos + 64) data))"
      using True "1.prems" rec transform_wf(1) [OF "1.prems"(1) p64]
      by (intro "1.IH") simp_all
    have m: "(len - 64) mod 64 = len mod 64"
      using True by (simp add: le_mod_geq)
    have l: "len mod 64 \<le> len - 64"
      using True m mod_less_eq_dividend [of "len - 64" 64] by simp
    have ab: "absorb (state_words (s this)) (take len (drop pos data))
        = absorb (state_words (s ?t)) (take (len - 64) (drop (pos + 64) data))"
      using True "1.prems" p64
      by (simp add: absorb_long transform_wf(2) [OF "1.prems"(1) p64]
           take_drop min_def add.commute)
    show ?thesis
      using ih m l True transform_wf(3,4) [OF "1.prems"(1) p64]
      by (simp add: ab)
  qed
qed

lemma rem64_short: "length xs < 64 \<Longrightarrow> rem64 xs = xs"
  by (simp add: rem64_def)

lemma rem64_block:
  assumes "length xs = 64"
  shows "rem64 (xs @ ys) = rem64 ys"
proof -
  have "(64 + length ys) mod 64 = length ys mod 64" by simp
  moreover have "length ys mod 64 \<le> length ys" by simp
  ultimately show ?thesis using assms
    by (simp add: rem64_def)
qed

lemma update_tail_props:
  assumes "wf_ctx this" "pos + len \<le> length data"
  shows "wf_ctx (update_tail this data pos len)"
    and "bytes (update_tail this data pos len) = bytes this"
    and "state_words (s (update_tail this data pos len))
           = absorb (state_words (s this)) (take len (drop pos data))"
    and "take (len mod 64) (block (update_tail this data pos len)) = rem64 (take len (drop pos data))"
proof -
  obtain this' pos' len' where ul: "update_loop this data pos len = (this', pos', len')"
    by (cases "update_loop this data pos len")
  note p = update_loop_props [OF assms ul]
  from p have wf_ctx': "wf_ctx this'" by simp
  from p have by': "bytes this' = bytes this" by simp
  from p have pos': "pos' = pos + (len - len mod 64)" by simp
  from p have len': "len' = len mod 64" by simp
  from p have sw: "state_words (s this') = absorb (state_words (s this)) (take len (drop pos data))" by simp
  have t: "update_tail this data pos len = this'\<lparr>block := copy_bytes (block this') 0 data pos' len'\<rparr>"
    by (simp add: update_tail_def ul)
  have lm: "len mod 64 \<le> len" by simp
  have b: "pos' + len' \<le> length data"
    using pos' len' assms(2) lm by simp
  have lb: "length (block this') = 64" using wf_ctx' by (simp add: wf_ctx_def)
  have l64: "0 + len' \<le> length (block this')"
    using len' lb by simp
  show "wf_ctx (update_tail this data pos len)"
    using wf_ctx' by (simp add: t wf_ctx_def length_copy_bytes)
  show "bytes (update_tail this data pos len) = bytes this"
    using by' by (simp add: t)
  show "state_words (s (update_tail this data pos len))
           = absorb (state_words (s this)) (take len (drop pos data))"
    using sw by (simp add: t)
  have "take (0 + len') (copy_bytes (block this') 0 data pos' len') = take 0 (block this') @ take len' (drop pos' data)"
    using l64 b by (rule take_copy_bytes)
  then have "take (len mod 64) (block (update_tail this data pos len)) = take (len mod 64) (drop (pos + (len - len mod 64)) data)"
    by (simp add: t pos' len')
  also have "\<dots> = rem64 (take len (drop pos data))"
  proof -
    define r where "r = len mod 64"
    have r: "r \<le> len" by (simp add: r_def)
    have ll: "length (take len (drop pos data)) = len"
      using assms(2) by simp
    have "rem64 (take len (drop pos data)) = drop (len - r) (take len (drop pos data))"
      unfolding rem64_def ll r_def ..
    also have "\<dots> = take (len - (len - r)) (drop (len - r) (drop pos data))"
      by (rule drop_take)
    also have "len - (len - r) = r" using r by simp
    also have "drop (len - r) (drop pos data) = drop (pos + (len - r)) data"
      by (simp add: add.commute)
    finally show ?thesis by (simp add: r_def)
  qed
  finally show "take (len mod 64) (block (update_tail this data pos len)) = rem64 (take len (drop pos data))" .
qed

lemma private_update_zero:
  assumes "wf_ctx this" "len \<le> length data" "bytes this mod 64 = 0"
  shows "wf_ctx (private_update this data len)
     \<and> bytes (private_update this data len) = bytes this + len
     \<and> state_words (s (private_update this data len))
           = absorb (state_words (s this)) (pending this @ take len data)
     \<and> pending (private_update this data len) = rem64 (pending this @ take len data)"
proof -
  let ?this1 = "this\<lparr>bytes := bytes this + len\<rparr>"
  have wf1: "wf_ctx ?this1" using assms(1) by (simp add: wf_ctx_def)
  have rng: "0 + len \<le> length data" using assms(2) by simp
  note ut = update_tail_props [OF wf1 rng]
  have pu: "private_update this data len = update_tail ?this1 data 0 len"
    using assms(3) by (simp add: private_update_def size_mask Let_def)
  have pe: "pending this = []" using assms(3) by (simp add: pending_def)
  have "(bytes this + len) mod 64 = (bytes this mod 64 + len) mod 64"
    by (simp add: mod_add_left_eq)
  then have m: "(bytes this + len) mod 64 = len mod 64"
    using assms(3) by simp
  have "pending (private_update this data len) = take (len mod 64) (block (update_tail ?this1 data 0 len))"
    using ut(2) by (simp add: pending_def pu m)
  then have "pending (private_update this data len) = rem64 (take len data)"
    using ut(4) by simp
  then show ?thesis
    using ut(1,2,3) by (simp add: pu pe)
qed

lemma private_update_short:
  assumes "wf_ctx this" "len \<le> length data" "0 < bytes this mod 64" "bytes this mod 64 + len < 64"
  shows "wf_ctx (private_update this data len)
     \<and> bytes (private_update this data len) = bytes this + len
     \<and> state_words (s (private_update this data len))
           = absorb (state_words (s this)) (pending this @ take len data)
     \<and> pending (private_update this data len) = rem64 (pending this @ take len data)"
proof -
  define size where "size = bytes this mod 64"
  have sz: "0 < size" "size + len < 64" using assms(3,4) by (simp_all add: size_def)
  have lb: "length (block this) = 64" using assms(1) by (simp add: wf_ctx_def)
  define blk where "blk = copy_bytes (block this) size data 0 len"
  have pu: "private_update this data len = this\<lparr>bytes := bytes this + len, block := blk\<rparr>"
    using sz by (simp add: private_update_def size_mask Let_def size_def [symmetric] blk_def)
  have "(bytes this + len) mod 64 = (bytes this mod 64 + len) mod 64"
    by (simp add: mod_add_left_eq)
  then have m: "(bytes this + len) mod 64 = size + len"
    using sz by (simp add: size_def)
  have r1: "size + len \<le> length (block this)" using sz lb by simp
  have r2: "0 + len \<le> length data" using assms(2) by simp
  have tk: "take (size + len) blk = take size (block this) @ take len (drop 0 data)"
    unfolding blk_def using r1 r2 by (rule take_copy_bytes)
  have pn: "pending (private_update this data len) = pending this @ take len data"
    using tk by (simp add: pu pending_def m size_def)
  have lp: "length (pending this @ take len data) < 64"
    using sz lb assms(2) by (simp add: pending_def size_def)
  have "wf_ctx (private_update this data len)"
    using assms(1) by (simp add: pu wf_ctx_def blk_def length_copy_bytes)
  moreover have "bytes (private_update this data len) = bytes this + len"
    by (simp add: pu)
  moreover have "state_words (s (private_update this data len)) = absorb (state_words (s this)) (pending this @ take len data)"
    by (simp add: pu absorb_short [OF lp])
  moreover have "pending (private_update this data len) = rem64 (pending this @ take len data)"
    by (simp only: pn rem64_short [OF lp])
  ultimately show ?thesis by blast
qed

lemma private_update_full:
  assumes "wf_ctx this" "len \<le> length data" "0 < bytes this mod 64" "64 \<le> bytes this mod 64 + len"
  shows "wf_ctx (private_update this data len)
     \<and> bytes (private_update this data len) = bytes this + len
     \<and> state_words (s (private_update this data len))
           = absorb (state_words (s this)) (pending this @ take len data)
     \<and> pending (private_update this data len) = rem64 (pending this @ take len data)"
proof -
  define size where "size = bytes this mod 64"
  define want where "want = 64 - size"
  have sz: "0 < size" "size < 64" using assms(3) by (simp_all add: size_def)
  have wl: "want \<le> len" "size + want = 64" using assms(4) sz by (simp_all add: want_def size_def)
  have lb: "length (block this) = 64" using assms(1) by (simp add: wf_ctx_def)
  define blk where "blk = copy_bytes (block this) size data 0 want"
  define this2 where "this2 = this\<lparr>bytes := bytes this + len, block := blk\<rparr>"
  define this3 where "this3 = transform this2 blk 0"
  have wn: "(if 64 - size > len then len else 64 - size) = want"
    using wl by (simp add: want_def)
  have pu: "private_update this data len = update_tail this3 data want (len - want)"
    using sz wl
    by (simp add: private_update_def size_mask Let_def size_def [symmetric] wn blk_def this2_def this3_def)
  have lblk: "length blk = 64" using lb by (simp add: blk_def length_copy_bytes)
  have r1: "size + want \<le> length (block this)" using wl lb by simp
  have r2: "0 + want \<le> length data" using wl assms(2) by simp
  have "take (size + want) blk = take size (block this) @ take want (drop 0 data)"
    unfolding blk_def using r1 r2 by (rule take_copy_bytes)
  then have blk: "blk = pending this @ take want data"
    using lblk wl by (simp add: pending_def size_def)
  have wf2: "wf_ctx this2" using assms(1) lblk by (simp add: wf_ctx_def this2_def)
  have p64: "0 + 64 \<le> length blk" using lblk by simp
  note tr = transform_wf [OF wf2 p64, folded this3_def]
  have bb: "take 64 (drop 0 blk) = blk" using lblk by simp
  have rng: "want + (len - want) \<le> length data" using wl assms(2) by simp
  note ut = update_tail_props [OF tr(1) rng]
  have "take (want + (len - want)) data = take want data @ take (len - want) (drop want data)"
    by (rule take_add)
  then have tk: "take len data = take want data @ take (len - want) (drop want data)"
    using wl(1) by simp
  have split: "pending this @ take len data = blk @ take (len - want) (drop want data)"
    by (simp add: blk tk)
  have m: "(bytes this + len) mod 64 = (len - want) mod 64"
  proof -
    have "bytes this = 64 * (bytes this div 64) + size"
      by (simp add: size_def)
    then have "bytes this + len = (len - want) + 64 * (bytes this div 64 + 1)"
      using wl by simp
    then show ?thesis
      by (simp only: mod_mult_self2)
  qed
  have ab: "absorb (state_words (s this)) (blk @ take (len - want) (drop want data))
      = absorb (spec_transform (state_words (s this)) blk) (take (len - want) (drop want data))"
    using lblk by (simp add: absorb_long)
  have s2: "s this2 = s this" "bytes this2 = bytes this + len" by (simp_all add: this2_def)
  have "wf_ctx (private_update this data len)"
    using ut(1) by (simp add: pu)
  moreover have "bytes (private_update this data len) = bytes this + len"
    using ut(2) tr(4) by (simp add: pu s2)
  moreover have "state_words (s (private_update this data len)) = absorb (state_words (s this)) (pending this @ take len data)"
    using ut(3) tr(2) by (simp only: pu split ab bb s2)
  moreover have "pending (private_update this data len) = rem64 (pending this @ take len data)"
  proof -
    have "pending (private_update this data len) = take ((len - want) mod 64) (block (update_tail this3 data want (len - want)))"
      using ut(2) tr(4) by (simp add: pending_def pu s2 m)
    also have "\<dots> = rem64 (take (len - want) (drop want data))"
      by (rule ut(4))
    also have "\<dots> = rem64 (pending this @ take len data)"
      by (simp only: split rem64_block [OF lblk])
    finally show ?thesis .
  qed
  ultimately show ?thesis by blast
qed

lemma private_update_props:
  assumes "wf_ctx this" "len \<le> length data"
  shows "wf_ctx (private_update this data len)"
    and "bytes (private_update this data len) = bytes this + len"
    and "state_words (s (private_update this data len))
           = absorb (state_words (s this)) (pending this @ take len data)"
    and "pending (private_update this data len) = rem64 (pending this @ take len data)"
proof -
  consider (zero) "bytes this mod 64 = 0"
    | (short) "0 < bytes this mod 64" "bytes this mod 64 + len < 64"
    | (full) "0 < bytes this mod 64" "64 \<le> bytes this mod 64 + len"
    by linarith
  then have "wf_ctx (private_update this data len)
     \<and> bytes (private_update this data len) = bytes this + len
     \<and> state_words (s (private_update this data len))
           = absorb (state_words (s this)) (pending this @ take len data)
     \<and> pending (private_update this data len) = rem64 (pending this @ take len data)"
  proof cases
    case zero
    then show ?thesis using assms by (rule private_update_zero [rotated 2])
  next
    case short
    then show ?thesis using assms by (rule private_update_short [rotated 2])
  next
    case full
    then show ?thesis using assms by (rule private_update_full [rotated 2])
  qed
  then show "wf_ctx (private_update this data len)"
    and "bytes (private_update this data len) = bytes this + len"
    and "state_words (s (private_update this data len))
           = absorb (state_words (s this)) (pending this @ take len data)"
    and "pending (private_update this data len) = rem64 (pending this @ take len data)"
    by simp_all
qed

lemma B0: "(word_of_int (js_ushr v 24) :: byte) = ucast (drop_bit 24 (word_of_int v :: 32 word))"
  by (simp add: js_ushr_def)

lemma B3: "(word_of_int (js_and v 0xff) :: byte) = ucast (word_of_int v :: 32 word)"
proof -
  have m: "(0xff :: 32 word) = mask 8"
    by (simp add: mask_eq_exp_minus_1)
  have "(scast ((word_of_int v :: 32 word) AND mask 8) :: byte) = ucast (word_of_int v :: 32 word)"
    by (rule bit_word_eqI) (auto simp add: bit_simps)
  then show ?thesis by (simp add: js_and_def m)
qed

lemma S16: "(ucast (signed_drop_bit 16 (x :: 32 word)) :: byte) = ucast (drop_bit 16 x)"
  by (rule bit_word_eqI) (auto simp add: bit_simps)

lemma S8: "(ucast (signed_drop_bit 8 (x :: 32 word)) :: byte) = ucast (drop_bit 8 x)"
  by (rule bit_word_eqI) (auto simp add: bit_simps)

lemma update4:
  assumes "off + 4 \<le> length buf"
  shows "buf[off := b0, off + 1 := b1, off + 2 := b2, off + 3 := b3]
           = take off buf @ [b0, b1, b2, b3] @ drop (off + 4) buf"
proof (rule nth_equalityI)
  show "length (buf[off := b0, off + 1 := b1, off + 2 := b2, off + 3 := b3]) = length (take off buf @ [b0, b1, b2, b3] @ drop (off + 4) buf)"
    using assms by simp
next
  fix i assume "i < length (buf[off := b0, off + 1 := b1, off + 2 := b2, off + 3 := b3])"
  then have i: "i < length buf" by simp
  consider "i < off" | "i = off" | "i = off + 1" | "i = off + 2" | "i = off + 3" | "off + 4 \<le> i"
    by linarith
  then show "buf[off := b0, off + 1 := b1, off + 2 := b2, off + 3 := b3] ! i = (take off buf @ [b0, b1, b2, b3] @ drop (off + 4) buf) ! i"
  proof cases
    case 1 then show ?thesis using i assms by (simp add: nth_append)
  next
    case 2 then show ?thesis using i assms by (simp add: nth_append)
  next
    case 3 then show ?thesis using i assms by (simp add: nth_append)
  next
    case 4 then show ?thesis using i assms by (simp add: nth_append)
  next
    case 5 then show ?thesis using i assms by (simp add: nth_append)
  next
    case 6 
    then have "i - off - 4 + (off + 4) = i" by simp
    then show ?thesis using 6 i assms by (simp add: nth_append nth_Cons' add.commute)
  qed
qed

lemma writeU32_eq:
  assumes "off + 4 \<le> length buf"
  shows "writeU32 buf v off = take off buf @ be_bytes32 (word_of_int v) @ drop (off + 4) buf"
  using update4 [OF assms]
  by (simp add: writeU32_def buf_set_def Let_def B0 B3 S16 S8 be_bytes32_def)

lemma length_be_bytes32: "length (be_bytes32 x) = 4"
  by (simp add: be_bytes32_def)

lemma hi_bytes:
  "be_bytes32 (word_of_int (int n div 0x100000000)) =
     [of_nat (n div 2 ^ 56), of_nat (n div 2 ^ 48), of_nat (n div 2 ^ 40), of_nat (n div 2 ^ 32)]"
proof -
  have e: "int n div 0x100000000 = int (drop_bit 32 n)"
    by (simp add: drop_bit_eq_div zdiv_int)
  have "(ucast (drop_bit 24 (word_of_nat (drop_bit 32 n) :: 32 word)) :: byte) = of_nat (drop_bit 56 n)"
    by (rule bit_word_eqI) (auto simp add: bit_simps)
  moreover have "(ucast (drop_bit 16 (word_of_nat (drop_bit 32 n) :: 32 word)) :: byte) = of_nat (drop_bit 48 n)"
    by (rule bit_word_eqI) (auto simp add: bit_simps)
  moreover have "(ucast (drop_bit 8 (word_of_nat (drop_bit 32 n) :: 32 word)) :: byte) = of_nat (drop_bit 40 n)"
    by (rule bit_word_eqI) (auto simp add: bit_simps)
  moreover have "(ucast (word_of_nat (drop_bit 32 n) :: 32 word) :: byte) = of_nat (drop_bit 32 n)"
    by (rule bit_word_eqI) (auto simp add: bit_simps)
  ultimately show ?thesis
    unfolding e be_bytes32_def by (simp add: drop_bit_eq_div)
qed

lemma lo_bytes:
  "be_bytes32 (word_of_nat n) =
     [of_nat (n div 2 ^ 24), of_nat (n div 2 ^ 16), of_nat (n div 2 ^ 8), of_nat n]"
proof -
  have "(ucast (drop_bit 24 (word_of_nat n :: 32 word)) :: byte) = of_nat (drop_bit 24 n)"
    by (rule bit_word_eqI) (auto simp add: bit_simps)
  moreover have "(ucast (drop_bit 16 (word_of_nat n :: 32 word)) :: byte) = of_nat (drop_bit 16 n)"
    by (rule bit_word_eqI) (auto simp add: bit_simps)
  moreover have "(ucast (drop_bit 8 (word_of_nat n :: 32 word)) :: byte) = of_nat (drop_bit 8 n)"
    by (rule bit_word_eqI) (auto simp add: bit_simps)
  moreover have "(ucast (word_of_nat n :: 32 word) :: byte) = of_nat n"
    by (rule bit_word_eqI) (auto simp add: bit_simps)
  ultimately show ?thesis
    unfolding be_bytes32_def by (simp add: drop_bit_eq_div)
qed

lemma desc_written:
  assumes "length desc = 8"
  shows "writeU32 (writeU32 desc (int n div 0x100000000) 0) (int n) 4 = be64 n"
proof -
  have "writeU32 desc (int n div 0x100000000) 0 = be_bytes32 (word_of_int (int n div 0x100000000)) @ drop 4 desc"
    using assms by (simp add: writeU32_eq)
  moreover have "writeU32 (be_bytes32 (word_of_int (int n div 0x100000000)) @ drop 4 desc) (int n) 4
      = be_bytes32 (word_of_int (int n div 0x100000000)) @ be_bytes32 (word_of_int (int n))"
    using assms by (simp add: writeU32_eq length_be_bytes32)
  ultimately show ?thesis
    by (simp add: hi_bytes lo_bytes be64_def)
qed

lemma length_be64: "length (be64 n) = 8"
  by (simp add: be64_def)

lemma take_PADDING:
  assumes "z < 64"
  shows "take (1 + z) PADDING = 0x80 # replicate z 0"
proof -
  have e: "PADDING = 0x80 # replicate 63 0"
    by (simp add: PADDING_def eval_nat_numeral)
  have "take (1 + z) (0x80 # replicate 63 (0::byte)) = 0x80 # replicate z 0"
    using assms by (simp add: min_def)
  then show ?thesis by (simp only: e)
qed

lemma padding_take: "take (1 + (119 - n mod 64) mod 64) PADDING = padding n"
  by (simp only: padding_def take_PADDING [of "(119 - n mod 64) mod 64"] mod_less_divisor zero_less_numeral)

lemma absorb_append: "absorb st (xs @ ys) = absorb (absorb st xs) (rem64 xs @ ys)"
proof (induction st xs rule: absorb.induct)
  case (1 st xs)
  show ?case
  proof (cases "64 \<le> length xs")
    case False
    then show ?thesis by (simp add: absorb_short rem64_short)
  next
    case True
    have xs: "xs = take 64 xs @ drop 64 xs" by simp
    have l: "length (take 64 xs) = 64" using True by simp
    have r: "rem64 xs = rem64 (drop 64 xs)"
      using rem64_block [OF l, of "drop 64 xs"] by simp
    have "absorb st (xs @ ys) = absorb (spec_transform st (take 64 xs)) (drop 64 xs @ ys)"
      using True by (simp add: absorb_long)
    also have "\<dots> = absorb (absorb (spec_transform st (take 64 xs)) (drop 64 xs)) (rem64 (drop 64 xs) @ ys)"
      using True by (rule "1.IH")
    also have "absorb (spec_transform st (take 64 xs)) (drop 64 xs) = absorb st xs"
      using True by (simp add: absorb_long)
    finally show ?thesis by (simp only: r)
  qed
qed

lemma rem64_append: "rem64 (rem64 xs @ ys) = rem64 (xs @ ys)"
proof (induction "length xs" arbitrary: xs rule: less_induct)
  case less
  show ?case
  proof (cases "64 \<le> length xs")
    case False
    then show ?thesis by (simp add: rem64_short)
  next
    case True
    have l: "length (take 64 xs) = 64" using True by simp
    have r: "rem64 xs = rem64 (drop 64 xs)"
      using rem64_block [OF l, of "drop 64 xs"] by simp
    have "xs @ ys = take 64 xs @ (drop 64 xs @ ys)" by simp
    then have r2: "rem64 (xs @ ys) = rem64 (drop 64 xs @ ys)"
      using rem64_block [OF l, of "drop 64 xs @ ys"] by (simp only:)
    have "rem64 (rem64 (drop 64 xs) @ ys) = rem64 (drop 64 xs @ ys)"
      using True by (intro less) simp
    then show ?thesis by (simp only: r r2)
  qed
qed

lemma length_rem64: "length (rem64 xs) = length xs mod 64"
  by (simp add: rem64_def)

lemma final_fold:
  assumes "length out = 20" "length (s this) = 5"
  shows "fold final_step [0..<5] (out, this) = (digest_bytes (state_words (s this)), this\<lparr>s := [0, 0, 0, 0, 0]\<rparr>)"
proof -
  obtain x0 x1 x2 x3 x4 where h: "s this = [x0, x1, x2, x3, x4]"
    using assms(2) by (rule list5)
  define o1 where "o1 = writeU32 out x0 0"
  define o2 where "o2 = writeU32 o1 x1 4"
  define o3 where "o3 = writeU32 o2 x2 8"
  define o4 where "o4 = writeU32 o3 x3 12"
  define o5 where "o5 = writeU32 o4 x4 16"
  have u: "[0..<5] = [0, 1, 2, 3, 4]"
    by code_simp
  have f: "fold final_step [0..<5] (out, this) = (o5, this\<lparr>s := [0, 0, 0, 0, 0]\<rparr>)"
    unfolding u by (simp add: final_step_def h o1_def o2_def o3_def o4_def o5_def)
  have e1: "o1 = be_bytes32 (word_of_int x0) @ drop 4 out"
    unfolding o1_def using assms(1) by (simp add: writeU32_eq)
  have e2: "o2 = be_bytes32 (word_of_int x0) @ be_bytes32 (word_of_int x1) @ drop 8 out"
    unfolding o2_def e1 using assms(1) by (simp add: writeU32_eq length_be_bytes32)
  have e3: "o3 = be_bytes32 (word_of_int x0) @ be_bytes32 (word_of_int x1) @ be_bytes32 (word_of_int x2) @ drop 12 out"
    unfolding o3_def e2 using assms(1) by (simp add: writeU32_eq length_be_bytes32)
  have e4: "o4 = be_bytes32 (word_of_int x0) @ be_bytes32 (word_of_int x1) @ be_bytes32 (word_of_int x2)
       @ be_bytes32 (word_of_int x3) @ drop 16 out"
    unfolding o4_def e3 using assms(1) by (simp add: writeU32_eq length_be_bytes32)
  have e5: "o5 = be_bytes32 (word_of_int x0) @ be_bytes32 (word_of_int x1) @ be_bytes32 (word_of_int x2)
       @ be_bytes32 (word_of_int x3) @ be_bytes32 (word_of_int x4)"
    unfolding o5_def e4 using assms(1) by (simp add: writeU32_eq length_be_bytes32)
  show ?thesis
    by (simp only: f e5) (simp add: digest_bytes_def state_words_def h)
qed

lemma private_final_char:
  assumes "wf_ctx this" "length desc = 8" "length out = 20"
  shows "private_final desc this out =
    (digest_bytes (absorb (state_words (s this)) (pending this @ padding (bytes this) @ be64 (bytes this * 8))),
     wiped (private_update (private_update this PADDING (1 + (119 - bytes this mod 64) mod 64)) (be64 (bytes this * 8)) 8),
     be64 (bytes this * 8))"
proof -
  define desc2 where "desc2 = be64 (bytes this * 8)"
  define n where "n = 1 + (119 - bytes this mod 64) mod 64"
  define this1 where "this1 = private_update this PADDING n"
  define this2 where "this2 = private_update this1 desc2 8"
  have d: "writeU32 (writeU32 desc (int (bytes this * 8) div 0x100000000) 0) (int (bytes this * 8)) 4 = desc2"
    unfolding desc2_def using assms(2) by (rule desc_written)
  have n64: "n \<le> length PADDING"
  proof -
    have "(119 - bytes this mod 64) mod 64 < 64" by simp
    then show ?thesis unfolding n_def PADDING_def by simp
  qed
  note u1 = private_update_props [OF assms(1) n64, folded this1_def]
  have l8: "8 \<le> length desc2" by (simp add: desc2_def length_be64)
  note u2 = private_update_props [OF u1(1) l8, folded this2_def]
  have tp: "take n PADDING = padding (bytes this)"
    unfolding n_def by (rule padding_take)
  have t8: "take 8 desc2 = desc2" by (simp add: desc2_def length_be64)
  have "state_words (s this2) = absorb (absorb (state_words (s this)) (pending this @ padding (bytes this)))
           (rem64 (pending this @ padding (bytes this)) @ desc2)"
    by (simp only: u2(3) u1(3) u1(4) tp t8)
  also have "\<dots> = absorb (state_words (s this)) ((pending this @ padding (bytes this)) @ desc2)"
    by (rule absorb_append [symmetric])
  finally have sw: "state_words (s this2) = absorb (state_words (s this)) (pending this @ padding (bytes this) @ desc2)"
    by simp
  have l5: "length (s this2)  = 5" using u2(1) by (simp add: wf_ctx_def)
  have pf: "private_final desc this out = (case fold final_step [0..<5] (out, this2) of (out1, this3) \<Rightarrow> (out1, this3, desc2))"
    unfolding private_final_def Let_def d this2_def this1_def n_def ..
  show ?thesis
    unfolding pf final_fold [OF assms(3) l5] sw
    by (simp add: wiped_def this2_def this1_def n_def desc2_def)
qed

section \<open>The interface\<close>

lemma init_props:
  assumes "wf_ctx this"
  shows "wf_ctx (init this)" and "state_words (s (init this)) = IV"
    and "bytes (init this) = 0" and "pending (init this) = []"
proof -
  obtain x0 x1 x2 x3 x4 where h: "s this = [x0, x1, x2, x3, x4]"
    using assms by (auto simp add: wf_ctx_def elim: list5)
  show "wf_ctx (init this)" using assms by (simp add: wf_ctx_def init_def)
  show "state_words (s (init this)) = IV"
    by (simp add: init_def h state_words_def IV_def)
  show "bytes (init this) = 0" by (simp add: init_def)
  show "pending (init this) = []" by (simp add: init_def pending_def)
qed

lemma update_Buffer: "update this (Buffer bs) = Inr (private_update this bs (length bs))"
  by (simp add: update_def)

lemma feed_chunks_props:
  "wf_ctx this \<Longrightarrow>
   \<exists>c. feed_chunks this chunks = Inr c \<and> wf_ctx c
     \<and> bytes c = bytes this + length (concat chunks)
     \<and> state_words (s c) = absorb (state_words (s this)) (pending this @ concat chunks)
     \<and> pending c = rem64 (pending this @ concat chunks)"
proof (induction chunks arbitrary: this)
  case Nil
  have "length (pending this) < 64" by (simp add: pending_def)
  then show ?case using Nil by (simp add: absorb_short rem64_short)
next
  case (Cons x xs)
  let ?t = "private_update this x (length x)"
  have le: "length x \<le> length x" by simp
  note u = private_update_props [OF Cons.prems le]
  obtain c where c: "feed_chunks ?t xs = Inr c" "wf_ctx c"
     "bytes c = bytes ?t + length (concat xs)"
     "state_words (s c) = absorb (state_words (s ?t)) (pending ?t @ concat xs)"
     "pending c = rem64 (pending ?t @ concat xs)"
    using Cons.IH [OF u(1)] by blast
  have "state_words (s c) = absorb (absorb (state_words (s this)) (pending this @ x)) (rem64 (pending this @ x) @ concat xs)"
    using c(4) u(3,4) by simp
  also have "\<dots> = absorb (state_words (s this)) ((pending this @ x) @ concat xs)"
    by (rule absorb_append [symmetric])
  finally have a: "state_words (s c) = absorb (state_words (s this)) (pending this @ concat (x # xs))"
    by simp
  have "pending c = rem64 (rem64 (pending this @ x) @ concat xs)"
    using c(5) u(4) by simp
  also have "\<dots> = rem64 ((pending this @ x) @ concat xs)"
    by (rule rem64_append)
  finally have b: "pending c = rem64 (pending this @ concat (x # xs))"
    by simp
  have "feed_chunks this (x # xs) = Inr c"
    using c(1) by (simp add: update_Buffer)
  moreover have "bytes c = bytes this + length (concat (x # xs))"
    using c(3) u(2) by simp
  ultimately show ?case using c(2) a b by blast
qed

lemma length_allocUnsafe: "length (allocUnsafe mem n) = n"
  by (simp add: allocUnsafe_def)

lemma final_char:
  assumes "wf_ctx this" "length desc = 8"
  shows "final mem desc this =
    (digest_bytes (absorb (state_words (s this)) (pending this @ padding (bytes this) @ be64 (bytes this * 8))),
     finalised this, be64 (bytes this * 8))"
  unfolding final_def finalised_def
  using assms length_allocUnsafe [of mem 20] by (rule private_final_char)

lemma final_wf:
  assumes "wf_ctx this"
  shows "wf_ctx (finalised this)"
proof -
  have n64: "1 + (119 - bytes this mod 64) mod 64 \<le> length PADDING"
  proof -
    have "(119 - bytes this mod 64) mod 64 < 64" by simp
    then show ?thesis unfolding PADDING_def by simp
  qed
  note u1 = private_update_props [OF assms n64]
  have l8: "8 \<le> length (be64 (bytes this * 8))" by (simp add: length_be64)
  note u2 = private_update_props [OF u1(1) l8]
  show ?thesis unfolding finalised_def using u2(1) by (simp add: wf_ctx_def wiped_def)
qed

lemma fed_digest:
  assumes "wf_ctx c" "length desc = 8" "bytes c = length X"
    "state_words (s c) = absorb IV X" "pending c = rem64 X"
  shows "fst (final mem desc c) = sha1_of X"
proof -
  have "absorb (state_words (s c)) (pending c @ padding (bytes c) @ be64 (bytes c * 8))
      = absorb (absorb IV X) (rem64 X @ (padding (length X) @ be64 (length X * 8)))"
    by (simp only: assms)
  also have "\<dots> = absorb IV (X @ (padding (length X) @ be64 (length X * 8)))"
    by (rule absorb_append [symmetric])
  finally show ?thesis
    by (simp add: final_char [OF assms(1,2)] sha1_of_def)
qed

lemma run_char:
  assumes "wf_ctx this" "length desc = 8"
  shows "\<exists>c d. run mem desc this (Buffer X) = Inr (sha1_of X, c, d) \<and> wf_ctx c \<and> length d = 8"
proof -
  note i = init_props [OF assms(1)]
  let ?c = "private_update (init this) X (length X)"
  have le: "length X \<le> length X" by simp
  note u = private_update_props [OF i(1) le]
  have "fst (final mem desc ?c) = sha1_of X"
    using u(1) assms(2) by (rule fed_digest) (simp_all add: u i)
  moreover have "wf_ctx (fst (snd (final mem desc ?c)))"
    by (simp add: final_char [OF u(1) assms(2)] final_wf [OF u(1)])
  moreover have "length (snd (snd (final mem desc ?c))) = 8"
    by (simp add: final_char [OF u(1) assms(2)] length_be64)
  moreover have "run mem desc this (Buffer X) = Inr (final mem desc ?c)"
    by (simp add: run_def update_Buffer)
  ultimately show ?thesis
    by (cases "final mem desc ?c") auto
qed

lemma digest_char:
  assumes "wf_module m"
  shows "\<exists>m'. digest mem m (Buffer X) = Inr (sha1_of X, m') \<and> wf_module m'
           \<and> DESC m' = be64 (length X * 8)"
proof -
  have w: "wf_ctx (ctx m)" "length (DESC m) = 8" using assms by (simp_all add: wf_module_def)
  note i = init_props [OF w(1)]
  let ?c = "private_update (init (ctx m)) X (length X)"
  have le: "length X \<le> length X" by simp
  note u = private_update_props [OF i(1) le]
  have f: "fst (final mem (DESC m) ?c) = sha1_of X"
    using u(1) w(2) by (rule fed_digest) (simp_all add: u i)
  note fc = final_char [OF u(1) w(2), of mem]
  show ?thesis
    using f final_wf [OF u(1)]
    by (simp add: digest_def update_Buffer fc wf_module_def length_be64 u(2) i(3))
qed

lemma root_char:
  assumes "wf_module m" "length a = 20" "length b = 20"
  shows "\<exists>m'. root mem m (Buffer a) (Buffer b) = Inr (sha1_of (a @ b), m') \<and> wf_module m'"
proof -
  have w: "wf_ctx (ctx m)" "length (DESC m) = 8" using assms by (simp_all add: wf_module_def)
  note i = init_props [OF w(1)]
  obtain c where c: "feed_chunks (init (ctx m)) [a, b] = Inr c" "wf_ctx c"
     "bytes c = bytes (init (ctx m)) + length (concat [a, b])"
     "state_words (s c) = absorb (state_words (s (init (ctx m)))) (pending (init (ctx m)) @ concat [a, b])"
     "pending c = rem64 (pending (init (ctx m)) @ concat [a, b])"
    using feed_chunks_props [OF i(1), of "[a, b]"] by blast
  have c': "private_update (private_update (init (ctx m)) a (length a)) b (length b) = c"
    using c(1) by (simp add: update_Buffer)
  have f: "fst (final mem (DESC m) c) = sha1_of (a @ b)"
    using c(2) w(2) by (rule fed_digest) (simp_all add: c i)
  note fc = final_char [OF c(2) w(2), of mem]
  have r: "root mem m (Buffer a) (Buffer b) =
      (case final mem (DESC m) c of (out, this2, desc1) \<Rightarrow> Inr (out, \<lparr>DESC = desc1, ctx = this2\<rparr>))"
    using assms(2,3) by (simp add: root_def isBuffer20_def update_Buffer c' [symmetric])
  show ?thesis
    unfolding r using f final_wf [OF c(2)]
    by (simp add: fc wf_module_def length_be64)
qed

section \<open>The claims\<close>

lemma wf_SHA1: "wf_ctx (SHA1 mem)"
  by (simp add: wf_ctx_def SHA1_def allocUnsafe_def)

lemma wf_ctx0: "wf_ctx ctx0"
  by (simp add: ctx0_def wf_SHA1)

lemma wf_load_module: "wf_module (load_module mem1 mem2)"
  by (simp add: wf_module_def load_module_def wf_SHA1 allocUnsafe_def)

lemma wf_module0: "wf_module module0"
  by (simp add: module0_def wf_load_module)

lemma outcome_digest:
  assumes "wf_module m"
  shows "outcome (digest mem m (Buffer X)) = Inr (sha1_of X)"
  using digest_char [OF assms, of mem X] by (auto simp add: outcome_def)

lemma run_empty:
  "outcome_hex (digest (\<lambda>i. 0) module0 (Buffer [])) = Inr ''da39a3ee5e6b4b0d3255bfef95601890afd80709''"
  by code_simp

lemma run_abc:
  "outcome_hex (digest (\<lambda>i. 0) module0 (Buffer abc)) = Inr ''a9993e364706816aba3e25717850c26c9cd0d89d''"
  by code_simp

lemma outcome_hex_digest:
  assumes "wf_module m"
  shows "outcome_hex (digest mem m (Buffer X)) = Inr (to_hex (sha1_of X))"
  by (simp add: outcome_hex_def outcome_digest [OF assms])

lemma length_sha1_of: "length (sha1_of X) = 20"
  by (simp add: sha1_of_def digest_bytes_def length_be_bytes32 split: prod.splits)

lemma sha1_empty: "to_hex (sha1_of []) = ''da39a3ee5e6b4b0d3255bfef95601890afd80709''"
  using run_empty outcome_hex_digest [OF wf_module0, of "\<lambda>i. 0" "[]"] by simp

lemma sha1_abc: "to_hex (sha1_of abc) = ''a9993e364706816aba3e25717850c26c9cd0d89d''"
  using run_abc outcome_hex_digest [OF wf_module0, of "\<lambda>i. 0" abc] by simp

lemma finish_Inr: "finish mem desc (Inr c) = Inr (fst (final mem desc c))"
  by (cases "final mem desc c") (simp add: finish_def)

lemma be_nat_be64:
  assumes "n < 2 ^ 64"
  shows "be_nat (be64 n) = n"
proof -
  define a where "a k = n div 2 ^ (8 * k)" for k
  have u: "\<And>k. unat (of_nat k :: byte) = k mod 256"
    by (simp add: unat_of_nat)
  have step: "\<And>k. a (Suc k) * 256 + a k mod 256 = a k"
  proof -
    fix k
    have "(2::nat) ^ (8 * Suc k) = 2 ^ (8 * k) * 256"
      by (simp add: power_add)
    then have "a (Suc k) = n div (2 ^ (8 * k) * 256)"
      by (simp only: a_def)
    also have "\<dots> = a k div 256"
      unfolding a_def by (rule div_mult2_eq)
    finally have "a (Suc k) = a k div 256" .
    then show "a (Suc k) * 256 + a k mod 256 = a k"
      by simp
  qed
  have a8: "a 8 = 0" using assms by (simp add: a_def)
  have a0: "a 0 = n" by (simp add: a_def)
  have s7: "a 7 mod 256 = a 7" using step [of 7] a8 by simp
  have s6: "a 7 * 256 + a 6 mod 256 = a 6" using step [of 6] by simp
  have s5: "a 6 * 256 + a 5 mod 256 = a 5" using step [of 5] by simp
  have s4: "a 5 * 256 + a 4 mod 256 = a 4" using step [of 4] by simp
  have s3: "a 4 * 256 + a 3 mod 256 = a 3" using step [of 3] by simp
  have s2: "a 3 * 256 + a 2 mod 256 = a 2" using step [of 2] by simp
  have s1: "a 2 * 256 + a 1 mod 256 = a 1" using step [of 1] by (simp add: numeral_2_eq_2)
  have s0: "a 1 * 256 + a 0 mod 256 = a 0" using step [of 0] by simp
  have e: "be64 n = [of_nat (a 7), of_nat (a 6), of_nat (a 5), of_nat (a 4),
                     of_nat (a 3), of_nat (a 2), of_nat (a 1), of_nat (a 0)]"
    by (simp add: be64_def a_def)
  have "be_nat (be64 n) =
     ((((((a 7 mod 256 * 256 + a 6 mod 256) * 256 + a 5 mod 256) * 256
      + a 4 mod 256) * 256 + a 3 mod 256) * 256 + a 2 mod 256) * 256
      + a 1 mod 256) * 256 + a 0 mod 256"
    unfolding e by (simp add: be_nat_def u)
  also have "\<dots> = a 0"
    by (simp only: s7 s6 s5 s4 s3 s2 s1 s0)
  finally show ?thesis by (simp only: a0)
qed

lemma pad_count:
  fixes r :: nat
  assumes "r < 64"
  shows "(r + 1 + (119 - r) mod 64) mod 64 = 56"
    and "r + 1 + (119 - r) mod 64 + 8 = (if r < 56 then 64 else 128)"
proof -
  have z: "(119 - r) mod 64 = (if r < 56 then 55 - r else 119 - r)"
  proof (cases "r < 56")
    case True
    then have "119 - r = 64 + (55 - r)" by simp
    then have "(119 - r) mod 64 = (55 - r) mod 64" by (simp only: mod_add_self1)
    then show ?thesis using True by simp
  next
    case False
    then show ?thesis using assms by simp
  qed
  show "(r + 1 + (119 - r) mod 64) mod 64 = 56"
    using assms by (simp add: z)
  show "r + 1 + (119 - r) mod 64 + 8 = (if r < 56 then 64 else 128)"
    using assms by (simp add: z)
qed

lemma absorb_one: "length xs = 64 \<Longrightarrow> absorb st xs = spec_transform st xs"
  by (simp add: absorb_long absorb_short)

lemma absorb_two:
  "length xs = 128 \<Longrightarrow> absorb st xs = spec_transform (spec_transform st (take 64 xs)) (drop 64 xs)"
  by (simp add: absorb_long absorb_short)

lemma private_update_empty: "private_update this [] 0 = this"
  by (simp add: private_update_def size_mask Let_def update_tail_def update_loop.simps [of _ _ _ 0] copy_bytes_def)

lemma root_rejects:
  assumes "\<not> isBuffer20 l \<or> \<not> isBuffer20 r"
  shows "root mem m l r = Inl (AssertionError, m)"
  using assms by (auto simp add: root_def)

lemma transform_abc:
  "s (transform (init ctx0) abc_block 0)
     = [0xa9993e36, 0x4706816a, 0xba3e2571, 0x7850c26c, 0x9cd0d89d]"
  by code_simp

text \<open>
  Claim C1. For every 64-byte block, the 64 bytes of the chunk from \<open>pos\<close> on, and
  every context whose state holds five numbers, \<open>transform\<close> computes what the
  specification describes: sixteen big-endian words in slots 0 to 15, slots 16 to 79
  expanded by the rotated exclusive or of slots \<open>i - 3\<close>, \<open>i - 8\<close>, \<open>i - 14\<close> and
  \<open>i - 16\<close>, eighty rounds with the round function and constant of the round's range,
  and the five working variables added to the state words modulo \<open>2 ^ 32\<close>.
\<close>

theorem transform_block:
  assumes "length (s this) = 5" "length (w this) = 80" "pos + 64 \<le> length chunk"
  shows "transform this chunk pos =
           this\<lparr>s := words_state (spec_transform (state_words (s this)) (take 64 (drop pos chunk))),
                w := map (\<lambda>i. sint (schedule (take 64 (drop pos chunk)) i)) [0..<80]\<rparr>"
  using transform_refines [OF assms(1,2), of chunk pos]
  by (simp only: block_bytes_take [OF assms(3)])

theorem transform_block_witness:
  "length (s (init ctx0)) = 5 \<and> length (w (init ctx0)) = 80 \<and> 0 + 64 \<le> length abc_block \<and>
   transform (init ctx0) abc_block 0 =
     (init ctx0)\<lparr>s := words_state (spec_transform (state_words (s (init ctx0))) (take 64 (drop 0 abc_block))),
          w := map (\<lambda>i. sint (schedule (take 64 (drop 0 abc_block)) i)) [0..<80]\<rparr> \<and>
   words_state (spec_transform (state_words (s (init ctx0))) (take 64 (drop 0 abc_block)))
     = [0xa9993e36, 0x4706816a, 0xba3e2571, 0x7850c26c, 0x9cd0d89d]"
proof -
  have a: "length (s (init ctx0)) = 5" by (simp add: init_def ctx0_def SHA1_def)
  have b: "length (w (init ctx0)) = 80" by (simp add: init_def ctx0_def SHA1_def)
  have c: "0 + 64 \<le> length abc_block" by (simp add: abc_block_def)
  note t = transform_block [OF a b c]
  have "s (transform (init ctx0) abc_block 0)
      = words_state (spec_transform (state_words (s (init ctx0))) (take 64 (drop 0 abc_block)))"
    by (simp only: t) simp
  then have d: "words_state (spec_transform (state_words (s (init ctx0))) (take 64 (drop 0 abc_block)))
      = [0xa9993e36, 0x4706816a, 0xba3e2571, 0x7850c26c, 0x9cd0d89d]"
    by (simp only: transform_abc)
  show ?thesis
    apply (rule conjI, rule a)
    apply (rule conjI, rule b)
    apply (rule conjI, rule c)
    apply (rule conjI, rule t)
    apply (rule d)
    done
qed

text \<open>
  Claim C2. For every message of fewer than \<open>2 ^ 53\<close> bytes (the lengths a Buffer can
  have, and the range in which the byte counter is exact) fed to an initialised context,
  \<open>final\<close> appends one byte \<open>0x80\<close>, then zero bytes up to a length congruent to 56
  modulo 64, then the eight bytes that denote the counter times 8 in big-endian order.
  The stream appended to the state after the feed is one block when the pending
  remainder is in 0 to 55 and two blocks when it is in 56 to 63, and the digest is the
  big-endian serialisation of the state after exactly these blocks.
\<close>

theorem finalize_padding:
  assumes "wf_ctx c" "length desc = 8" "length msg < 2 ^ 53"
  shows "let this = private_update (init c) msg (length msg);
             r = length msg mod 64;
             z = (119 - r) mod 64;
             trailer = be64 (length msg * 8);
             stream = pending this @ [0x80] @ replicate z 0 @ trailer;
             st = state_words (s this)
         in update (init c) (Buffer msg) = Inr this
          \<and> bytes this = length msg \<and> length (pending this) = r
          \<and> (length (pending this) + 1 + z) mod 64 = 56
          \<and> length trailer = 8 \<and> be_nat trailer = bytes this * 8
          \<and> length stream = (if r < 56 then 64 else 128)
          \<and> fst (final mem desc this) =
               digest_bytes
                 (if r < 56 then spec_transform st stream
                  else spec_transform (spec_transform st (take 64 stream)) (drop 64 stream))"
proof -
  define this where "this = private_update (init c) msg (length msg)"
  define r where "r = length msg mod 64"
  define z where "z = (119 - r) mod 64"
  define trailer where "trailer = be64 (length msg * 8)"
  define stream where "stream = pending this @ [0x80] @ replicate z 0 @ trailer"
  define st where "st = state_words (s this)"
  note i = init_props [OF assms(1)]
  have le: "length msg \<le> length msg" by simp
  note u = private_update_props [OF i(1) le, folded this_def]
  have b: "bytes this = length msg" using u(2) i(3) by simp
  have p: "length (pending this) = r"
    using u(4) i(4) by (simp add: length_rem64 r_def)
  have r64: "r < 64" by (simp add: r_def)
  note pc = pad_count [OF r64, folded z_def]
  have lt: "length trailer = 8" by (simp add: trailer_def length_be64)
  have "length msg * 8 < 2 ^ 64"
    using assms(3) by simp
  then have bn: "be_nat trailer = bytes this * 8"
    by (simp add: trailer_def b be_nat_be64)
  have ls: "length stream = (if r < 56 then 64 else 128)"
    using pc(2) by (simp add: stream_def p lt)
  have "fst (final mem desc this) = digest_bytes (absorb st (pending this @ padding (bytes this) @ be64 (bytes this * 8)))"
    by (simp add: final_char [OF u(1) assms(2)] st_def)
  also have "pending this @ padding (bytes this) @ be64 (bytes this * 8) = stream"
    by (simp add: stream_def padding_def b r_def z_def trailer_def)
  also have "absorb st stream = (if r < 56 then spec_transform st stream
                  else spec_transform (spec_transform st (take 64 stream)) (drop 64 stream))"
    using ls by (simp add: absorb_one absorb_two)
  finally have f: "fst (final mem desc this) =
               digest_bytes
                 (if r < 56 then spec_transform st stream
                  else spec_transform (spec_transform st (take 64 stream)) (drop 64 stream))" .
  have up: "update (init c) (Buffer msg) = Inr this"
    by (simp add: update_Buffer this_def)
  have "update (init c) (Buffer msg) = Inr this
          \<and> bytes this = length msg \<and> length (pending this) = r
          \<and> (length (pending this) + 1 + z) mod 64 = 56
          \<and> length trailer = 8 \<and> be_nat trailer = bytes this * 8
          \<and> length stream = (if r < 56 then 64 else 128)
          \<and> fst (final mem desc this) =
               digest_bytes
                 (if r < 56 then spec_transform st stream
                  else spec_transform (spec_transform st (take 64 stream)) (drop 64 stream))"
    using up b p pc(1) lt bn ls f by (simp only: p simp_thms)
  then show ?thesis
    unfolding Let_def this_def [symmetric] r_def [symmetric] z_def [symmetric]
      trailer_def [symmetric] stream_def [symmetric] st_def [symmetric] .
qed

theorem finalize_padding_witness:
  "wf_ctx ctx0 \<and> length (replicate 8 (0::byte)) = 8 \<and> length ([] :: byte list) < 2 ^ 53 \<and>
   (let this = private_update (init ctx0) [] (length ([] :: byte list));
             r = length ([] :: byte list) mod 64;
             z = (119 - r) mod 64;
             trailer = be64 (length ([] :: byte list) * 8);
             stream = pending this @ [0x80] @ replicate z 0 @ trailer;
             st = state_words (s this)
         in update (init ctx0) (Buffer []) = Inr this
          \<and> bytes this = length ([] :: byte list) \<and> length (pending this) = r
          \<and> (length (pending this) + 1 + z) mod 64 = 56
          \<and> length trailer = 8 \<and> be_nat trailer = bytes this * 8
          \<and> length stream = (if r < 56 then 64 else 128)
          \<and> fst (final (\<lambda>i. 0) (replicate 8 0) this) =
               digest_bytes
                 (if r < 56 then spec_transform st stream
                  else spec_transform (spec_transform st (take 64 stream)) (drop 64 stream)))"
proof -
  have a: "wf_ctx ctx0" by (rule wf_ctx0)
  have b: "length (replicate 8 (0::byte)) = 8" by simp
  have c: "length ([] :: byte list) < 2 ^ 53" by simp
  show ?thesis
    apply (rule conjI, rule a)
    apply (rule conjI, rule b)
    apply (rule conjI, rule c)
    apply (rule finalize_padding [OF a b c])
    done
qed

text \<open>
  Claim C3. For every byte sequence and every partition of it into chunks, feeding the
  chunks in order to an initialised context and finalising gives the digest of one feed
  of the whole sequence; and feeding an empty Buffer leaves any context as it is.
\<close>

theorem streaming_equivalence:
  assumes "wf_ctx this" "length desc = 8"
  shows "finish mem desc (feed_chunks (init this) chunks)
           = finish mem desc (update (init this) (Buffer (concat chunks)))
       \<and> finish mem desc (update (init this) (Buffer (concat chunks))) = Inr (sha1_of (concat chunks))
       \<and> update c (Buffer []) = Inr c"
proof -
  note i = init_props [OF assms(1)]
  obtain c1 where c1: "feed_chunks (init this) chunks = Inr c1" "wf_ctx c1"
     "bytes c1 = bytes (init this) + length (concat chunks)"
     "state_words (s c1) = absorb (state_words (s (init this))) (pending (init this) @ concat chunks)"
     "pending c1 = rem64 (pending (init this) @ concat chunks)"
    using feed_chunks_props [OF i(1), of chunks] by blast
  have f1: "fst (final mem desc c1) = sha1_of (concat chunks)"
    using c1(2) assms(2) by (rule fed_digest) (simp_all add: c1 i)
  let ?c2 = "private_update (init this) (concat chunks) (length (concat chunks))"
  have le: "length (concat chunks) \<le> length (concat chunks)" by simp
  note u = private_update_props [OF i(1) le]
  have f2: "fst (final mem desc ?c2) = sha1_of (concat chunks)"
    using u(1) assms(2) by (rule fed_digest) (simp_all add: u i)
  have a: "finish mem desc (feed_chunks (init this) chunks) = Inr (sha1_of (concat chunks))"
    by (simp only: c1(1) finish_Inr f1)
  have b: "finish mem desc (update (init this) (Buffer (concat chunks))) = Inr (sha1_of (concat chunks))"
    by (simp only: update_Buffer finish_Inr f2)
  have e: "update c (Buffer []) = Inr c"
    by (simp add: update_Buffer private_update_empty)
  show ?thesis using a b e by simp
qed

theorem streaming_equivalence_witness:
  "wf_ctx ctx0 \<and> length (replicate 8 (0::byte)) = 8 \<and>
   finish (\<lambda>i. 0) (replicate 8 0) (feed_chunks (init ctx0) [[1, 2], [], [3]])
           = finish (\<lambda>i. 0) (replicate 8 0) (update (init ctx0) (Buffer (concat [[1, 2], [], [3]])))
       \<and> finish (\<lambda>i. 0) (replicate 8 0) (update (init ctx0) (Buffer (concat [[1, 2], [], [3]])))
           = Inr (sha1_of (concat [[1, 2], [], [3]]))
       \<and> update ctx0 (Buffer []) = Inr ctx0"
proof -
  have a: "wf_ctx ctx0" by (rule wf_ctx0)
  have b: "length (replicate 8 (0::byte)) = 8" by simp
  show ?thesis
    apply (rule conjI, rule a)
    apply (rule conjI, rule b)
    apply (rule streaming_equivalence [OF a b])
    done
qed

text \<open>
  Claim C4. The one-shot digest of the empty byte sequence is
  \<open>da39a3ee5e6b4b0d3255bfef95601890afd80709\<close>, whatever state the module's shared
  context is in.
\<close>

theorem digest_empty:
  assumes "wf_module m"
  shows "outcome (digest mem m (Buffer [])) = Inr (sha1_of [])
       \<and> length (sha1_of []) = 20
       \<and> outcome_hex (digest mem m (Buffer [])) = Inr ''da39a3ee5e6b4b0d3255bfef95601890afd80709''"
  by (simp only: outcome_digest [OF assms] outcome_hex_digest [OF assms] sha1_empty
        length_sha1_of simp_thms)

theorem digest_empty_witness:
  "wf_module module0
   \<and> outcome (digest (\<lambda>i. 1) module0 (Buffer [])) = Inr (sha1_of [])
   \<and> length (sha1_of []) = 20
   \<and> outcome_hex (digest (\<lambda>i. 1) module0 (Buffer [])) = Inr ''da39a3ee5e6b4b0d3255bfef95601890afd80709''"
  apply (rule conjI, rule wf_module0)
  apply (rule digest_empty [OF wf_module0])
  done

text \<open>
  Claim C5, as amended. The one-shot digest of the ASCII bytes of \<open>abc\<close> is the 20-byte
  value \<open>a9993e364706816aba3e25717850c26c9cd0d89d\<close>. The value of the specification's
  vector has 39 hexadecimal digits, one less than a digest: the last digit \<open>d\<close> is
  missing, and the digest in hexadecimal differs from it.
\<close>

theorem digest_abc:
  assumes "wf_module m"
  shows "outcome (digest mem m (Buffer [0x61, 0x62, 0x63])) = Inr (sha1_of [0x61, 0x62, 0x63])
       \<and> length (sha1_of [0x61, 0x62, 0x63]) = 20
       \<and> outcome_hex (digest mem m (Buffer [0x61, 0x62, 0x63])) = Inr ''a9993e364706816aba3e25717850c26c9cd0d89d''"
  using sha1_abc
  by (simp only: outcome_digest [OF assms] outcome_hex_digest [OF assms]
        length_sha1_of simp_thms abc_def)

theorem digest_abc_witness:
  "wf_module module0
   \<and> outcome (digest (\<lambda>i. 1) module0 (Buffer [0x61, 0x62, 0x63])) = Inr (sha1_of [0x61, 0x62, 0x63])
   \<and> length (sha1_of [0x61, 0x62, 0x63]) = 20
   \<and> outcome_hex (digest (\<lambda>i. 1) module0 (Buffer [0x61, 0x62, 0x63])) = Inr ''a9993e364706816aba3e25717850c26c9cd0d89d''"
  apply (rule conjI, rule wf_module0)
  apply (rule digest_abc [OF wf_module0])
  done

theorem digest_abc_counterexample:
  "outcome_hex (digest (\<lambda>i. 0) module0 (Buffer [0x61, 0x62, 0x63]))
     \<noteq> Inr ''a9993e364706816aba3e25717850c26c9cd0d89''"
proof -
  have "outcome_hex (digest (\<lambda>i. 0) module0 (Buffer [0x61, 0x62, 0x63])) = Inr ''a9993e364706816aba3e25717850c26c9cd0d89d''"
    using run_abc by (simp only: abc_def)
  then show ?thesis by simp
qed

text \<open>
  Claim C6. For two Buffers of 20 bytes each, \<open>root\<close> returns the digest of their
  concatenation, as \<open>digest\<close> does; and when either argument is not a Buffer of exactly
  20 bytes, \<open>root\<close> fails with the error of \<open>assert\<close> and touches nothing.
\<close>

theorem root_combine:
  "(wf_module m \<and> length a = 20 \<and> length b = 20 \<longrightarrow>
      outcome (root mem m (Buffer a) (Buffer b)) = outcome (digest mem m (Buffer (a @ b)))
      \<and> outcome (root mem m (Buffer a) (Buffer b)) = Inr (sha1_of (a @ b)))
   \<and> (\<not> isBuffer20 l \<or> \<not> isBuffer20 r \<longrightarrow> root mem m l r = Inl (AssertionError, m))"
proof (intro conjI impI)
  assume h: "wf_module m \<and> length a = 20 \<and> length b = 20"
  then obtain m' where r: "root mem m (Buffer a) (Buffer b) = Inr (sha1_of (a @ b), m')"
    using root_char [of m a b mem] by blast
  show "outcome (root mem m (Buffer a) (Buffer b)) = Inr (sha1_of (a @ b))"
    by (simp add: r outcome_def)
  then show "outcome (root mem m (Buffer a) (Buffer b)) = outcome (digest mem m (Buffer (a @ b)))"
    using h by (simp add: outcome_digest)
next
  assume "\<not> isBuffer20 l \<or> \<not> isBuffer20 r"
  then show "root mem m l r = Inl (AssertionError, m)"
    by (rule root_rejects)
qed

theorem root_combine_witness:
  "wf_module module0 \<and> length (replicate 20 (1::byte)) = 20 \<and> length (replicate 20 (2::byte)) = 20
   \<and> outcome (root (\<lambda>i. 0) module0 (Buffer (replicate 20 1)) (Buffer (replicate 20 2)))
        = outcome (digest (\<lambda>i. 0) module0 (Buffer (replicate 20 1 @ replicate 20 2)))
   \<and> outcome (root (\<lambda>i. 0) module0 (Buffer (replicate 20 1)) (Buffer (replicate 20 2)))
        = Inr (sha1_of (replicate 20 1 @ replicate 20 2))
   \<and> \<not> isBuffer20 (Buffer (replicate 19 1))
   \<and> root (\<lambda>i. 0) module0 (Buffer (replicate 19 1)) (Buffer (replicate 20 2)) = Inl (AssertionError, module0)"
proof -
  have a: "wf_module module0 \<and> length (replicate 20 (1::byte)) = 20 \<and> length (replicate 20 (2::byte)) = 20"
    by (simp add: wf_module0)
  have b: "\<not> isBuffer20 (Buffer (replicate 19 1))"
    by (simp add: isBuffer20_def)
  have c: "\<not> isBuffer20 (Buffer (replicate 19 1)) \<or> \<not> isBuffer20 (Buffer (replicate 20 2))"
    using b by simp
  note t = root_combine [of module0 "replicate 20 1" "replicate 20 2" "\<lambda>i. 0"
      "Buffer (replicate 19 1)" "Buffer (replicate 20 2)"]
  show ?thesis
    using a b t [THEN conjunct1, THEN mp, OF a] t [THEN conjunct2, THEN mp, OF c]
    by blast
qed

text \<open>
  Claim C7. Running \<open>init\<close>, \<open>update\<close> and \<open>final\<close> on a context, and then again on
  the same context as the first run left it, gives the same digest both times, which is
  also the digest that a freshly constructed context gives.
\<close>

theorem reuse_law:
  assumes "wf_ctx this" "length desc = 8" "length desc' = 8"
  shows "\<exists>c1 d1 c2 d2 c3 d3.
           run mem1 desc this (Buffer X) = Inr (sha1_of X, c1, d1)
         \<and> run mem2 d1 c1 (Buffer X) = Inr (sha1_of X, c2, d2)
         \<and> run mem3 desc' (SHA1 mem4) (Buffer X) = Inr (sha1_of X, c3, d3)"
proof -
  obtain c1 d1 where r1: "run mem1 desc this (Buffer X) = Inr (sha1_of X, c1, d1)" "wf_ctx c1" "length d1 = 8"
    using run_char [OF assms(1,2), of mem1 X] by blast
  obtain c2 d2 where r2: "run mem2 d1 c1 (Buffer X) = Inr (sha1_of X, c2, d2)"
    using run_char [OF r1(2,3), of mem2 X] by blast
  obtain c3 d3 where r3: "run mem3 desc' (SHA1 mem4) (Buffer X) = Inr (sha1_of X, c3, d3)"
    using run_char [OF wf_SHA1 assms(3), of mem3 mem4 X] by blast
  show ?thesis using r1(1) r2 r3 by blast
qed

theorem reuse_law_witness:
  "wf_ctx ctx0 \<and> length (replicate 8 (0::byte)) = 8 \<and> length (replicate 8 (7::byte)) = 8 \<and>
   (\<exists>c1 d1 c2 d2 c3 d3.
           run (\<lambda>i. 0) (replicate 8 0) ctx0 (Buffer abc) = Inr (sha1_of abc, c1, d1)
         \<and> run (\<lambda>i. 1) d1 c1 (Buffer abc) = Inr (sha1_of abc, c2, d2)
         \<and> run (\<lambda>i. 2) (replicate 8 7) (SHA1 (\<lambda>i. 3)) (Buffer abc) = Inr (sha1_of abc, c3, d3))"
proof -
  have a: "wf_ctx ctx0" by (rule wf_ctx0)
  have b: "length (replicate 8 (0::byte)) = 8" by simp
  have c: "length (replicate 8 (7::byte)) = 8" by simp
  show ?thesis
    apply (rule conjI, rule a)
    apply (rule conjI, rule b)
    apply (rule conjI, rule c)
    apply (rule reuse_law [OF a b c])
    done
qed

text \<open>
  Claim C8, as amended. For every value that is not a Buffer, \<open>update\<close> fails at once
  with the \<open>AssertionError\<close> that \<open>assert\<close> throws, and the context is as it was before
  the call. The error is not a \<open>TypeError\<close>.
\<close>

theorem update_rejects:
  assumes "\<not> isBuffer v"
  shows "update this v = Inl (AssertionError, this)"
  using assms by (cases v) (simp_all add: update_def)

theorem update_rejects_witness:
  "\<not> isBuffer (JString ''abc'')
   \<and> update (init ctx0) (JString ''abc'') = Inl (AssertionError, init ctx0)"
proof -
  have a: "\<not> isBuffer (JString ''abc'')" by simp
  show ?thesis using a update_rejects [OF a, of "init ctx0"] by blast
qed

theorem update_rejects_counterexample:
  "thrown (update (init ctx0) (JString ''abc'')) \<noteq> Some TypeError"
  by (simp add: update_def thrown_def)

text \<open>
  Claim C9, as amended. The one-shot \<open>digest\<close> runs on the module's single shared
  context and scratch buffer, and every call overwrites them: the module's state after a
  call differs from the state before it. Because each call re-initialises the shared
  context, the digest returned depends on the data alone, whatever state earlier calls
  left behind, and the state a call leaves is again fit for the next call.
\<close>

theorem digest_isolated:
  assumes "wf_module m" "wf_module m'"
  shows "outcome (digest mem m (Buffer X)) = outcome (digest mem' m' (Buffer X))
       \<and> outcome (digest mem m (Buffer X)) = Inr (sha1_of X)
       \<and> wf_module (state_after (digest mem m (Buffer X)))"
proof -
  obtain m1 where m1: "digest mem m (Buffer X) = Inr (sha1_of X, m1)" "wf_module m1"
    using digest_char [OF assms(1), of mem X] by blast
  have s: "state_after (digest mem m (Buffer X)) = m1"
    by (simp add: m1(1) state_after_def)
  show ?thesis
    using m1(2) by (simp only: outcome_digest [OF assms(1)] outcome_digest [OF assms(2)] s simp_thms)
qed

theorem digest_isolated_witness:
  "wf_module module0 \<and> wf_module (state_after (digest (\<lambda>i. 0) module0 (Buffer abc)))
   \<and> outcome (digest (\<lambda>i. 0) module0 (Buffer abc))
        = outcome (digest (\<lambda>i. 1) (state_after (digest (\<lambda>i. 0) module0 (Buffer abc))) (Buffer abc))
   \<and> outcome (digest (\<lambda>i. 0) module0 (Buffer abc)) = Inr (sha1_of abc)
   \<and> wf_module (state_after (digest (\<lambda>i. 0) module0 (Buffer abc)))"
proof -
  have a: "wf_module module0" by (rule wf_module0)
  have b: "wf_module (state_after (digest (\<lambda>i. 0) module0 (Buffer abc)))"
    using digest_isolated [OF a a, of "\<lambda>i. 0" abc] by blast
  show ?thesis
    apply (rule conjI, rule a)
    apply (rule conjI, rule b)
    apply (rule digest_isolated [OF a b])
    done
qed

theorem digest_shared_state_counterexample:
  "state_after (digest (\<lambda>i. 0) module0 (Buffer [0x61, 0x62, 0x63])) \<noteq> module0"
proof -
  obtain m' where m': "digest (\<lambda>i. 0) module0 (Buffer [0x61, 0x62, 0x63]) = Inr (sha1_of [0x61, 0x62, 0x63], m')"
      "DESC m' = be64 (length [0x61 :: byte, 0x62, 0x63] * 8)"
    using digest_char [OF wf_module0, of "\<lambda>i. 0" "[0x61, 0x62, 0x63]"] by blast
  have "DESC m' ! 7 = 24" by (simp add: m'(2) be64_def)
  moreover have "DESC module0 ! 7 = 0"
    by (simp add: module0_def load_module_def allocUnsafe_def)
  ultimately have "m' \<noteq> module0" by auto
  then show ?thesis by (simp add: m'(1) state_after_def)
qed

text \<open>
  Claim C10. For every round index that the third loop of \<open>transform\<close> visits, the
  selector \<open>i div 20\<close> is one of 0, 1, 2, 3: \<open>ft_1\<close> does not take its fallback branch
  and the selector is an index of \<open>K\<close>.
\<close>

theorem selector_in_range:
  assumes "length ws = 80" "i < length (expand_words (load_words chunk pos ws))"
  shows "i div 20 < 4 \<and> ft_1_branch (i div 20) \<noteq> Fallback \<and> i div 20 < length K"
proof -
  have "i < 80"
    using assms by (simp add: expand_words_def length_fold_expand length_load_words del: upt_rec_numeral)
  then show ?thesis
    by (cases i rule: sel_cases) (simp_all add: ft_1_branch_def K_def)
qed

theorem selector_in_range_witness:
  "length (replicate 80 (0::int)) = 80
   \<and> 79 < length (expand_words (load_words [] 0 (replicate 80 0)))
   \<and> (79::nat) div 20 < 4 \<and> ft_1_branch (79 div 20) \<noteq> Fallback \<and> (79::nat) div 20 < length K"
proof -
  have a: "length (replicate 80 (0::int)) = 80" by simp
  have b: "79 < length (expand_words (load_words [] 0 (replicate 80 0)))"
    by (simp add: expand_words_def length_fold_expand length_load_words del: upt_rec_numeral)
  show ?thesis using a b selector_in_range [OF a b] by blast
qed

end
